theory Spec2Isabelle
  imports Main "HOL-Library.Word"
begin

unbundle bit_operations_syntax

section \<open>Entity model (generated.hpp, namespace test)\<close>

text \<open>
  A \<open>uint8_t\<close> is an 8-bit word. A \<open>std::string\<close> is a sequence of \<open>char\<close>, and a
  \<open>char\<close> is one byte: the two casts between \<open>char\<close> and \<open>uint8_t\<close> that the codec
  performs (\<open>buffer.insert\<close> of the characters, \<open>reinterpret_cast<const char*>\<close>) keep the
  bit pattern. A \<open>float\<close> crosses the codec only through \<open>memcpy\<close> to and from
  \<open>uint32_t\<close>, so a float field is modelled by its 32-bit pattern. \<open>int32_t\<close> and
  \<open>int64_t\<close> are words read with \<open>sint\<close>. A \<open>size_t\<close> (buffer sizes, the read cursor,
  indices) is a \<open>nat\<close>: the sizes of live objects stay far below \<open>2 ^ 64\<close>, so
  \<open>pos + needed\<close> does not wrap.
\<close>

type_synonym byte = "8 word"
type_synonym float32 = "32 word"

definition byte_of_char :: "char \<Rightarrow> byte" where
  "byte_of_char c = of_char c"

definition char_of_byte :: "byte \<Rightarrow> char" where
  "char_of_byte b = char_of (unat b)"

record Parameter =
  DisplayName :: string
  DefaultValue :: float32
  CurrentValue :: float32
  Address :: "32 word"
  MaxValue :: float32
  MinValue :: float32
  Unit :: string
  Identifier :: string
  CanRamp :: bool
  IsWritable :: bool
  RawFlags :: "64 word"
  IndexedValues :: "string list option"
  IndexedValuesSource :: "string option"

record Plugin =
  Name :: string
  ManufacturerID :: string
  Type :: string
  Subtype :: string
  Parameters :: "Parameter list"

section \<open>Encoder\<close>

text \<open>
  The class \<open>Encoder\<close> has the single member \<open>buffer\<close>; each \<open>write_\<close> method takes
  the buffer and returns it with the new bytes pushed at the back.
\<close>

definition write_byte :: "byte \<Rightarrow> byte list \<Rightarrow> byte list" where
  "write_byte b buffer = buffer @ [b]"

definition write_bool :: "bool \<Rightarrow> byte list \<Rightarrow> byte list" where
  "write_bool v buffer = buffer @ [if v then 0x01 else 0x00]"

definition write_int32 :: "32 word \<Rightarrow> byte list \<Rightarrow> byte list" where
  "write_int32 v buffer =
     (let u = v in
      buffer @ [ucast u, ucast (drop_bit 8 u), ucast (drop_bit 16 u), ucast (drop_bit 24 u)])"

definition write_int64 :: "64 word \<Rightarrow> byte list \<Rightarrow> byte list" where
  "write_int64 v buffer =
     (let u = v in
      buffer @ [ucast u, ucast (drop_bit 8 u), ucast (drop_bit 16 u), ucast (drop_bit 24 u),
                ucast (drop_bit 32 u), ucast (drop_bit 40 u), ucast (drop_bit 48 u),
                ucast (drop_bit 56 u)])"

definition write_float32 :: "float32 \<Rightarrow> byte list \<Rightarrow> byte list" where
  "write_float32 v buffer = (let u = v in write_int32 u buffer)"

definition write_string :: "string \<Rightarrow> byte list \<Rightarrow> byte list" where
  "write_string s buffer =
     (let len = (of_nat (length s) :: 16 word) in
      buffer @ [ucast len, ucast (drop_bit 8 len)] @ map byte_of_char s)"

text \<open>
  The block \<open>{ uint16_t len = static_cast<uint16_t>(v.size()); enc.write_byte(len);
  enc.write_byte(len >> 8); }\<close>, which \<open>encode_plugin_message\<close> repeats before each of its
  three loops.
\<close>

definition write_array_length :: "nat \<Rightarrow> byte list \<Rightarrow> byte list" where
  "write_array_length n buffer =
     (let len = (of_nat n :: 16 word) in
      write_byte (ucast (drop_bit 8 len)) (write_byte (ucast len) buffer))"

text \<open>The three nested range-\<open>for\<close> loops of \<open>encode_plugin_message\<close> and their bodies.\<close>

primrec encode_strings :: "string list \<Rightarrow> byte list \<Rightarrow> byte list" where
  "encode_strings [] enc = enc"
| "encode_strings (elem # rest) enc = encode_strings rest (write_string elem enc)"

definition encode_parameter :: "Parameter \<Rightarrow> byte list \<Rightarrow> byte list" where
  "encode_parameter elem enc0 =
     (let enc = write_string (DisplayName elem) enc0;
          enc = write_float32 (DefaultValue elem) enc;
          enc = write_float32 (CurrentValue elem) enc;
          enc = write_int32 (Address elem) enc;
          enc = write_float32 (MaxValue elem) enc;
          enc = write_float32 (MinValue elem) enc;
          enc = write_string (Unit elem) enc;
          enc = write_string (Identifier elem) enc;
          enc = write_bool (CanRamp elem) enc;
          enc = write_bool (IsWritable elem) enc;
          enc = write_int64 (RawFlags elem) enc;
          enc = (case IndexedValues elem of
                   Some v \<Rightarrow> encode_strings v (write_array_length (length v) (write_byte 0x01 enc))
                 | None \<Rightarrow> write_byte 0x00 enc);
          enc = (case IndexedValuesSource elem of
                   Some s \<Rightarrow> write_string s (write_byte 0x01 enc)
                 | None \<Rightarrow> write_byte 0x00 enc)
      in enc)"

primrec encode_parameters :: "Parameter list \<Rightarrow> byte list \<Rightarrow> byte list" where
  "encode_parameters [] enc = enc"
| "encode_parameters (elem # rest) enc = encode_parameters rest (encode_parameter elem enc)"

definition encode_plugin :: "Plugin \<Rightarrow> byte list \<Rightarrow> byte list" where
  "encode_plugin elem enc0 =
     (let enc = write_string (Name elem) enc0;
          enc = write_string (ManufacturerID elem) enc;
          enc = write_string (Type elem) enc;
          enc = write_string (Subtype elem) enc;
          enc = write_array_length (length (Parameters elem)) enc
      in encode_parameters (Parameters elem) enc)"

primrec encode_plugins :: "Plugin list \<Rightarrow> byte list \<Rightarrow> byte list" where
  "encode_plugins [] enc = enc"
| "encode_plugins (elem # rest) enc = encode_plugins rest (encode_plugin elem enc)"

definition encode_plugin_message :: "Plugin list \<Rightarrow> byte list" where
  "encode_plugin_message val = encode_plugins val (write_array_length (length val) [])"

section \<open>Decoder\<close>

text \<open>
  \<open>RuntimeError\<close> is the \<open>std::runtime_error\<close> that \<open>check_remaining\<close> throws, with its
  message. The other three are the behaviours C++ leaves undefined and that the model
  makes visible: a read of \<open>data[i]\<close> at or after the supplied length, the use of a
  handle that points to no live object, and \<open>operator[]\<close> past the end of a vector.
\<close>

datatype failure = RuntimeError string | ReadPastLength | DanglingHandle | IndexPastEnd

definition insufficient :: failure where
  "insufficient = RuntimeError ''insufficient data for decode''"

definition bnd :: "failure + 'a \<Rightarrow> ('a \<Rightarrow> failure + 'b) \<Rightarrow> failure + 'b" where
  "bnd m f = (case m of Inl e \<Rightarrow> Inl e | Inr x \<Rightarrow> f x)"

text \<open>
  \<open>data\<close> is the memory the pointer refers to, \<open>size_dec\<close> the member \<open>size\<close> (the supplied
  length), \<open>pos\<close> the read cursor.
\<close>

record Decoder =
  data :: "byte list"
  size_dec :: nat
  pos :: nat

definition check_remaining :: "Decoder \<Rightarrow> nat \<Rightarrow> failure + unit" where
  "check_remaining dec needed =
     (if pos dec + needed > size_dec dec then Inl insufficient else Inr ())"

text \<open>The read \<open>data[i]\<close>.\<close>

definition byte_at :: "Decoder \<Rightarrow> nat \<Rightarrow> failure + byte" where
  "byte_at dec i =
     (if i < size_dec dec \<and> i < length (data dec) then Inr (data dec ! i)
      else Inl ReadPastLength)"

text \<open>The \<open>n\<close> reads of the constructor \<open>std::string(data + i, n)\<close>.\<close>

primrec bytes_at :: "Decoder \<Rightarrow> nat \<Rightarrow> nat \<Rightarrow> failure + byte list" where
  "bytes_at dec i 0 = Inr []"
| "bytes_at dec i (Suc n) =
     bnd (byte_at dec i) (\<lambda>b. bnd (bytes_at dec (Suc i) n) (\<lambda>bs. Inr (b # bs)))"

definition read_bool :: "Decoder \<Rightarrow> failure + (bool \<times> Decoder)" where
  "read_bool dec =
     bnd (check_remaining dec 1) (\<lambda>_.
     bnd (byte_at dec (pos dec)) (\<lambda>b.
     Inr (b \<noteq> 0x00, dec\<lparr>pos := pos dec + 1\<rparr>)))"

definition read_int32 :: "Decoder \<Rightarrow> failure + (32 word \<times> Decoder)" where
  "read_int32 dec =
     bnd (check_remaining dec 4) (\<lambda>_.
     bnd (byte_at dec (pos dec)) (\<lambda>b0.
     bnd (byte_at dec (pos dec + 1)) (\<lambda>b1.
     bnd (byte_at dec (pos dec + 2)) (\<lambda>b2.
     bnd (byte_at dec (pos dec + 3)) (\<lambda>b3.
     let u = (ucast b0 :: 32 word) OR push_bit 8 (ucast b1) OR push_bit 16 (ucast b2)
             OR push_bit 24 (ucast b3)
     in Inr (u, dec\<lparr>pos := pos dec + 4\<rparr>))))))"

definition read_int64 :: "Decoder \<Rightarrow> failure + (64 word \<times> Decoder)" where
  "read_int64 dec =
     bnd (check_remaining dec 8) (\<lambda>_.
     bnd (byte_at dec (pos dec)) (\<lambda>b0.
     bnd (byte_at dec (pos dec + 1)) (\<lambda>b1.
     bnd (byte_at dec (pos dec + 2)) (\<lambda>b2.
     bnd (byte_at dec (pos dec + 3)) (\<lambda>b3.
     bnd (byte_at dec (pos dec + 4)) (\<lambda>b4.
     bnd (byte_at dec (pos dec + 5)) (\<lambda>b5.
     bnd (byte_at dec (pos dec + 6)) (\<lambda>b6.
     bnd (byte_at dec (pos dec + 7)) (\<lambda>b7.
     let u = (ucast b0 :: 64 word) OR push_bit 8 (ucast b1) OR push_bit 16 (ucast b2)
             OR push_bit 24 (ucast b3) OR push_bit 32 (ucast b4) OR push_bit 40 (ucast b5)
             OR push_bit 48 (ucast b6) OR push_bit 56 (ucast b7)
     in Inr (u, dec\<lparr>pos := pos dec + 8\<rparr>))))))))))"

definition read_float32 :: "Decoder \<Rightarrow> failure + (float32 \<times> Decoder)" where
  "read_float32 dec = bnd (read_int32 dec) (\<lambda>(u, dec). Inr (u, dec))"

definition read_string :: "Decoder \<Rightarrow> failure + (string \<times> Decoder)" where
  "read_string dec =
     bnd (check_remaining dec 2) (\<lambda>_.
     bnd (byte_at dec (pos dec)) (\<lambda>b0.
     bnd (byte_at dec (pos dec + 1)) (\<lambda>b1.
     let len = (ucast b0 :: 16 word) OR push_bit 8 (ucast b1);
         dec = dec\<lparr>pos := pos dec + 2\<rparr>
     in bnd (check_remaining dec (unat len)) (\<lambda>_.
        bnd (bytes_at dec (pos dec) (unat len)) (\<lambda>bs.
        Inr (map char_of_byte bs, dec\<lparr>pos := pos dec + unat len\<rparr>))))))"

definition read_array_length :: "Decoder \<Rightarrow> failure + (16 word \<times> Decoder)" where
  "read_array_length dec =
     bnd (check_remaining dec 2) (\<lambda>_.
     bnd (byte_at dec (pos dec)) (\<lambda>b0.
     bnd (byte_at dec (pos dec + 1)) (\<lambda>b1.
     let len = (ucast b0 :: 16 word) OR push_bit 8 (ucast b1)
     in Inr (len, dec\<lparr>pos := pos dec + 2\<rparr>))))"

text \<open>
  The loops \<open>for (uint16_t i = 0; i < len; ++i)\<close> of \<open>decode_plugin_message\<close>. The body
  never uses \<open>i\<close>, and \<open>i\<close> cannot wrap before it reaches \<open>len\<close>, so each loop runs its
  body \<open>unat len\<close> times: the first argument counts the iterations left, the second is
  the vector that \<open>push_back\<close> extends.
\<close>

primrec decode_strings :: "nat \<Rightarrow> string list \<Rightarrow> Decoder \<Rightarrow> failure + (string list \<times> Decoder)" where
  "decode_strings 0 tmp dec = Inr (tmp, dec)"
| "decode_strings (Suc n) tmp dec =
     bnd (read_string dec) (\<lambda>(elem2, dec). decode_strings n (tmp @ [elem2]) dec)"

definition decode_parameter :: "Decoder \<Rightarrow> failure + (Parameter \<times> Decoder)" where
  "decode_parameter dec0 =
     bnd (read_string dec0) (\<lambda>(display_name, dec).
     bnd (read_float32 dec) (\<lambda>(default_value, dec).
     bnd (read_float32 dec) (\<lambda>(current_value, dec).
     bnd (read_int32 dec) (\<lambda>(address, dec).
     bnd (read_float32 dec) (\<lambda>(max_value, dec).
     bnd (read_float32 dec) (\<lambda>(min_value, dec).
     bnd (read_string dec) (\<lambda>(unit, dec).
     bnd (read_string dec) (\<lambda>(identifier, dec).
     bnd (read_bool dec) (\<lambda>(can_ramp, dec).
     bnd (read_bool dec) (\<lambda>(is_writable, dec).
     bnd (read_int64 dec) (\<lambda>(raw_flags, dec).
     bnd (read_bool dec) (\<lambda>(has_values, dec).
     bnd (if has_values
          then bnd (read_array_length dec) (\<lambda>(len, dec).
               bnd (decode_strings (unat len) [] dec) (\<lambda>(tmp, dec).
               Inr (Some tmp, dec)))
          else Inr (None, dec)) (\<lambda>(indexed_values, dec).
     bnd (read_bool dec) (\<lambda>(has_source, dec).
     bnd (if has_source
          then bnd (read_string dec) (\<lambda>(s, dec). Inr (Some s, dec))
          else Inr (None, dec)) (\<lambda>(indexed_values_source, dec).
     Inr (\<lparr>DisplayName = display_name, DefaultValue = default_value,
           CurrentValue = current_value, Address = address, MaxValue = max_value,
           MinValue = min_value, Unit = unit, Identifier = identifier,
           CanRamp = can_ramp, IsWritable = is_writable, RawFlags = raw_flags,
           IndexedValues = indexed_values,
           IndexedValuesSource = indexed_values_source\<rparr>, dec))))))))))))))))"

primrec decode_parameters ::
  "nat \<Rightarrow> Parameter list \<Rightarrow> Decoder \<Rightarrow> failure + (Parameter list \<times> Decoder)" where
  "decode_parameters 0 params dec = Inr (params, dec)"
| "decode_parameters (Suc n) params dec =
     bnd (decode_parameter dec) (\<lambda>(elem1, dec). decode_parameters n (params @ [elem1]) dec)"

definition decode_plugin :: "Decoder \<Rightarrow> failure + (Plugin \<times> Decoder)" where
  "decode_plugin dec0 =
     bnd (read_string dec0) (\<lambda>(name, dec).
     bnd (read_string dec) (\<lambda>(manufacturer_id, dec).
     bnd (read_string dec) (\<lambda>(type, dec).
     bnd (read_string dec) (\<lambda>(subtype, dec).
     bnd (read_array_length dec) (\<lambda>(len, dec).
     bnd (decode_parameters (unat len) [] dec) (\<lambda>(params, dec).
     Inr (\<lparr>Name = name, ManufacturerID = manufacturer_id, Type = type,
           Subtype = subtype, Parameters = params\<rparr>, dec)))))))"

primrec decode_plugins ::
  "nat \<Rightarrow> Plugin list \<Rightarrow> Decoder \<Rightarrow> failure + (Plugin list \<times> Decoder)" where
  "decode_plugins 0 result dec = Inr (result, dec)"
| "decode_plugins (Suc n) result dec =
     bnd (decode_plugin dec) (\<lambda>(elem0, dec). decode_plugins n (result @ [elem0]) dec)"

text \<open>
  \<open>decode_plugin_message(const uint8_t* data, size_t size)\<close>; the overload on a vector
  passes \<open>v.data()\<close> and \<open>v.size()\<close>.
\<close>

definition decode_plugin_message :: "byte list \<Rightarrow> nat \<Rightarrow> failure + Plugin list" where
  "decode_plugin_message d s =
     (let dec = \<lparr>data = d, size_dec = s, pos = 0\<rparr> in
      bnd (read_array_length dec) (\<lambda>(len, dec).
      bnd (decode_plugins (unat len) [] dec) (\<lambda>(result, dec).
      Inr result)))"

definition decode_plugin_message_vec :: "byte list \<Rightarrow> failure + Plugin list" where
  "decode_plugin_message_vec v = decode_plugin_message v (length v)"

section \<open>Boundary layer (generated_c.cpp)\<close>

text \<open>
  A handle is a \<open>void*\<close>: an address, \<open>0\<close> for \<open>nullptr\<close>. The store maps the address
  of every live object to its value; \<open>new\<close> takes the next unused address, which is never
  handed out again, and \<open>delete\<close> removes the object. Allocation is taken to succeed.
  \<open>static_cast<T*>(handle)\<close> followed by a member access is a lookup in the store: where
  no live object of that type is found the C++ behaviour is undefined, which the model
  reports as \<open>DanglingHandle\<close>.

  An output parameter (\<open>char** error_msg\<close>, \<open>uint8_t** out_data\<close>) is a component of
  the result: \<open>None\<close> where the function stores nothing through it. The caller is taken
  to pass non-null output pointers.
\<close>

type_synonym handle = nat

definition make_error_msg :: "string \<Rightarrow> string" where
  "make_error_msg msg = msg"

subsection \<open>experimental/cpp-bindings/common/generated_c.cpp\<close>

record PluginHandleImpl =
  plugins :: "Plugin list"
  error :: string
  encoded_data :: "byte list"

text \<open>
  \<open>param\<close> is the address \<open>&impl->plugins[0].Parameters[index]\<close>: the PluginHandleImpl
  that owns the storage and the position in its first Plugin's parameters.
\<close>

record ParameterHandleImpl =
  param :: "handle \<times> nat"

text \<open>The fields of \<open>MessageHandleImpl\<close> (test-dist) carry the suffix \<open>_m\<close>.\<close>

record MessageHandleImpl =
  items :: "Plugin list"
  error_m :: string
  encoded_data_m :: "byte list"

record store =
  plugin_objs :: "handle \<rightharpoonup> PluginHandleImpl"
  parameter_objs :: "handle \<rightharpoonup> ParameterHandleImpl"
  message_objs :: "handle \<rightharpoonup> MessageHandleImpl"
  next_addr :: handle

definition empty_store :: store where
  "empty_store = \<lparr>plugin_objs = Map.empty, parameter_objs = Map.empty,
                   message_objs = Map.empty, next_addr = 1\<rparr>"

definition plugin_decode ::
  "byte list option \<Rightarrow> nat \<Rightarrow> store \<Rightarrow> failure + ((handle \<times> string option) \<times> store)" where
  "plugin_decode d len st =
     (case d of
        None \<Rightarrow> Inr ((0, Some (make_error_msg ''Invalid input data'')), st)
      | Some bytes \<Rightarrow>
          if len = 0 then Inr ((0, Some (make_error_msg ''Invalid input data'')), st)
          else (case decode_plugin_message bytes len of
                  Inl (RuntimeError what) \<Rightarrow> Inr ((0, Some (make_error_msg what)), st)
                | Inl e \<Rightarrow> Inl e
                | Inr decoded \<Rightarrow>
                    if decoded = []
                    then Inr ((0, Some (make_error_msg ''No plugins in message'')), st)
                    else let h = next_addr st;
                             impl = \<lparr>plugins = decoded, error = [], encoded_data = []\<rparr>
                         in Inr ((h, None),
                                 st\<lparr>plugin_objs := (plugin_objs st)(h \<mapsto> impl),
                                    next_addr := h + 1\<rparr>)))"

text \<open>The result is the returned size, \<open>*out_data\<close> and \<open>*error_msg\<close>.\<close>

definition plugin_encode ::
  "handle \<Rightarrow> store \<Rightarrow> failure + ((nat \<times> byte list option \<times> string option) \<times> store)" where
  "plugin_encode h st =
     (if h = 0 then Inr ((0, None, Some (make_error_msg ''Invalid handle'')), st)
      else (case plugin_objs st h of
              None \<Rightarrow> Inl DanglingHandle
            | Some impl \<Rightarrow>
                let impl = impl\<lparr>encoded_data := encode_plugin_message (plugins impl)\<rparr>;
                    out_data = encoded_data impl
                in Inr ((length (encoded_data impl), Some out_data, None),
                        st\<lparr>plugin_objs := (plugin_objs st)(h \<mapsto> impl)\<rparr>)))"

text \<open>\<open>delete\<close> of the null pointer does nothing.\<close>

definition plugin_free :: "handle \<Rightarrow> store \<Rightarrow> failure + store" where
  "plugin_free h st =
     (if h = 0 then Inr st
      else (case plugin_objs st h of
              None \<Rightarrow> Inl DanglingHandle
            | Some impl \<Rightarrow> Inr (st\<lparr>plugin_objs := (plugin_objs st)(h := None)\<rparr>)))"

text \<open>\<open>static_cast<PluginHandleImpl*>(handle)->plugins[0]\<close>, which every getter evaluates.\<close>

definition first_plugin :: "handle \<Rightarrow> store \<Rightarrow> failure + Plugin" where
  "first_plugin h st =
     (case plugin_objs st h of
        None \<Rightarrow> Inl DanglingHandle
      | Some impl \<Rightarrow> (case plugins impl of [] \<Rightarrow> Inl IndexPastEnd | p # _ \<Rightarrow> Inr p))"

text \<open>A \<open>const char*\<close> result is \<open>None\<close> for \<open>nullptr\<close>, otherwise the string it points to.\<close>

definition plugin_get_name :: "handle \<Rightarrow> store \<Rightarrow> failure + string option" where
  "plugin_get_name h st =
     (if h = 0 then Inr None else bnd (first_plugin h st) (\<lambda>p. Inr (Some (Name p))))"

definition plugin_get_manufacturer_id :: "handle \<Rightarrow> store \<Rightarrow> failure + string option" where
  "plugin_get_manufacturer_id h st =
     (if h = 0 then Inr None else bnd (first_plugin h st) (\<lambda>p. Inr (Some (ManufacturerID p))))"

definition plugin_get_type :: "handle \<Rightarrow> store \<Rightarrow> failure + string option" where
  "plugin_get_type h st =
     (if h = 0 then Inr None else bnd (first_plugin h st) (\<lambda>p. Inr (Some (Type p))))"

definition plugin_get_subtype :: "handle \<Rightarrow> store \<Rightarrow> failure + string option" where
  "plugin_get_subtype h st =
     (if h = 0 then Inr None else bnd (first_plugin h st) (\<lambda>p. Inr (Some (Subtype p))))"

definition plugin_get_parameters_count :: "handle \<Rightarrow> store \<Rightarrow> failure + nat" where
  "plugin_get_parameters_count h st =
     (if h = 0 then Inr 0 else bnd (first_plugin h st) (\<lambda>p. Inr (length (Parameters p))))"

definition plugin_get_parameter :: "handle \<Rightarrow> nat \<Rightarrow> store \<Rightarrow> failure + (handle \<times> store)" where
  "plugin_get_parameter h index st =
     (if h = 0 then Inr (0, st)
      else bnd (first_plugin h st) (\<lambda>p.
        if index \<ge> length (Parameters p) then Inr (0, st)
        else let param_handle = next_addr st
             in Inr (param_handle,
                     st\<lparr>parameter_objs := (parameter_objs st)(param_handle \<mapsto> \<lparr>param = (h, index)\<rparr>),
                        next_addr := param_handle + 1\<rparr>)))"

text \<open>\<open>*static_cast<ParameterHandleImpl*>(handle)->param\<close>.\<close>

definition deref_param :: "handle \<Rightarrow> store \<Rightarrow> failure + Parameter" where
  "deref_param h st =
     (case parameter_objs st h of
        None \<Rightarrow> Inl DanglingHandle
      | Some impl \<Rightarrow>
          (case param impl of (owner, i) \<Rightarrow>
             bnd (first_plugin owner st) (\<lambda>p.
               if i < length (Parameters p) then Inr (Parameters p ! i) else Inl IndexPastEnd)))"

definition parameter_get_display_name :: "handle \<Rightarrow> store \<Rightarrow> failure + string option" where
  "parameter_get_display_name h st =
     (if h = 0 then Inr None else bnd (deref_param h st) (\<lambda>p. Inr (Some (DisplayName p))))"

definition parameter_get_default_value :: "handle \<Rightarrow> store \<Rightarrow> failure + float32" where
  "parameter_get_default_value h st =
     (if h = 0 then Inr 0 else bnd (deref_param h st) (\<lambda>p. Inr (DefaultValue p)))"

definition parameter_get_current_value :: "handle \<Rightarrow> store \<Rightarrow> failure + float32" where
  "parameter_get_current_value h st =
     (if h = 0 then Inr 0 else bnd (deref_param h st) (\<lambda>p. Inr (CurrentValue p)))"

definition parameter_get_address :: "handle \<Rightarrow> store \<Rightarrow> failure + 32 word" where
  "parameter_get_address h st =
     (if h = 0 then Inr 0 else bnd (deref_param h st) (\<lambda>p. Inr (Address p)))"

definition parameter_get_max_value :: "handle \<Rightarrow> store \<Rightarrow> failure + float32" where
  "parameter_get_max_value h st =
     (if h = 0 then Inr 0 else bnd (deref_param h st) (\<lambda>p. Inr (MaxValue p)))"

definition parameter_get_min_value :: "handle \<Rightarrow> store \<Rightarrow> failure + float32" where
  "parameter_get_min_value h st =
     (if h = 0 then Inr 0 else bnd (deref_param h st) (\<lambda>p. Inr (MinValue p)))"

definition parameter_get_unit :: "handle \<Rightarrow> store \<Rightarrow> failure + string option" where
  "parameter_get_unit h st =
     (if h = 0 then Inr None else bnd (deref_param h st) (\<lambda>p. Inr (Some (Unit p))))"

definition parameter_get_identifier :: "handle \<Rightarrow> store \<Rightarrow> failure + string option" where
  "parameter_get_identifier h st =
     (if h = 0 then Inr None else bnd (deref_param h st) (\<lambda>p. Inr (Some (Identifier p))))"

definition parameter_get_can_ramp :: "handle \<Rightarrow> store \<Rightarrow> failure + int" where
  "parameter_get_can_ramp h st =
     (if h = 0 then Inr 0 else bnd (deref_param h st) (\<lambda>p. Inr (if CanRamp p then 1 else 0)))"

definition parameter_get_is_writable :: "handle \<Rightarrow> store \<Rightarrow> failure + int" where
  "parameter_get_is_writable h st =
     (if h = 0 then Inr 0 else bnd (deref_param h st) (\<lambda>p. Inr (if IsWritable p then 1 else 0)))"

definition parameter_get_raw_flags :: "handle \<Rightarrow> store \<Rightarrow> failure + 64 word" where
  "parameter_get_raw_flags h st =
     (if h = 0 then Inr 0 else bnd (deref_param h st) (\<lambda>p. Inr (RawFlags p)))"

definition parameter_get_indexed_values_count :: "handle \<Rightarrow> store \<Rightarrow> failure + nat" where
  "parameter_get_indexed_values_count h st =
     (if h = 0 then Inr 0
      else bnd (deref_param h st) (\<lambda>p.
        case IndexedValues p of None \<Rightarrow> Inr 0 | Some vs \<Rightarrow> Inr (length vs)))"

definition parameter_get_indexed_value ::
  "handle \<Rightarrow> nat \<Rightarrow> store \<Rightarrow> failure + string option" where
  "parameter_get_indexed_value h index st =
     (if h = 0 then Inr None
      else bnd (deref_param h st) (\<lambda>p.
        case IndexedValues p of
          None \<Rightarrow> Inr None
        | Some vs \<Rightarrow> if index \<ge> length vs then Inr None else Inr (Some (vs ! index))))"

definition parameter_get_indexed_values_source ::
  "handle \<Rightarrow> store \<Rightarrow> failure + string option" where
  "parameter_get_indexed_values_source h st =
     (if h = 0 then Inr None
      else bnd (deref_param h st) (\<lambda>p.
        case IndexedValuesSource p of None \<Rightarrow> Inr None | Some s \<Rightarrow> Inr (Some s)))"

subsection \<open>test-dist/cpp/src/generated_c.cpp\<close>

definition message_decode ::
  "byte list option \<Rightarrow> nat \<Rightarrow> store \<Rightarrow> failure + ((handle \<times> string option) \<times> store)" where
  "message_decode d len st =
     (case d of
        None \<Rightarrow> Inr ((0, Some (make_error_msg ''Invalid input data'')), st)
      | Some bytes \<Rightarrow>
          if len = 0 then Inr ((0, Some (make_error_msg ''Invalid input data'')), st)
          else (case decode_plugin_message bytes len of
                  Inl (RuntimeError what) \<Rightarrow> Inr ((0, Some (make_error_msg what)), st)
                | Inl e \<Rightarrow> Inl e
                | Inr result \<Rightarrow>
                    if result = []
                    then Inr ((0, Some (make_error_msg ''No items in message'')), st)
                    else let h = next_addr st;
                             impl = \<lparr>items = result, error_m = [], encoded_data_m = []\<rparr>
                         in Inr ((h, None),
                                 st\<lparr>message_objs := (message_objs st)(h \<mapsto> impl),
                                    next_addr := h + 1\<rparr>)))"

definition message_encode ::
  "handle \<Rightarrow> store \<Rightarrow> failure + ((nat \<times> byte list option \<times> string option) \<times> store)" where
  "message_encode h st =
     (if h = 0 then Inr ((0, None, Some (make_error_msg ''Invalid handle'')), st)
      else (case message_objs st h of
              None \<Rightarrow> Inl DanglingHandle
            | Some impl \<Rightarrow>
                let impl = impl\<lparr>encoded_data_m := encode_plugin_message (items impl)\<rparr>;
                    out_data = encoded_data_m impl
                in Inr ((length (encoded_data_m impl), Some out_data, None),
                        st\<lparr>message_objs := (message_objs st)(h \<mapsto> impl)\<rparr>)))"

definition message_free :: "handle \<Rightarrow> store \<Rightarrow> failure + store" where
  "message_free h st =
     (if h = 0 then Inr st
      else (case message_objs st h of
              None \<Rightarrow> Inl DanglingHandle
            | Some impl \<Rightarrow> Inr (st\<lparr>message_objs := (message_objs st)(h := None)\<rparr>)))"

section \<open>Specification vocabulary\<close>

subsection \<open>The 16-bit limits of the entity model\<close>

text \<open>
  A value is within the limits when every text has at most 65535 bytes and every sequence
  at most 65535 elements.
\<close>

definition valid_string :: "string \<Rightarrow> bool" where
  "valid_string s \<longleftrightarrow> length s \<le> 65535"

definition valid_parameter :: "Parameter \<Rightarrow> bool" where
  "valid_parameter p \<longleftrightarrow>
     valid_string (DisplayName p) \<and> valid_string (Unit p) \<and> valid_string (Identifier p)
     \<and> (case IndexedValues p of None \<Rightarrow> True
         | Some xs \<Rightarrow> length xs \<le> 65535 \<and> list_all valid_string xs)
     \<and> (case IndexedValuesSource p of None \<Rightarrow> True | Some s \<Rightarrow> valid_string s)"

definition valid_plugin :: "Plugin \<Rightarrow> bool" where
  "valid_plugin p \<longleftrightarrow>
     valid_string (Name p) \<and> valid_string (ManufacturerID p) \<and> valid_string (Type p)
     \<and> valid_string (Subtype p) \<and> length (Parameters p) \<le> 65535
     \<and> list_all valid_parameter (Parameters p)"

definition valid_message :: "Plugin list \<Rightarrow> bool" where
  "valid_message m \<longleftrightarrow> length m \<le> 65535 \<and> list_all valid_plugin m"

subsection \<open>Decoder states\<close>

text \<open>
  The cursor is inside the supplied length and the supplied length inside the memory;
  \<open>remaining\<close> is what lies between the cursor and the supplied length.
\<close>

definition in_bounds :: "Decoder \<Rightarrow> bool" where
  "in_bounds dec \<longleftrightarrow> pos dec \<le> size_dec dec \<and> size_dec dec \<le> length (data dec)"

definition remaining :: "Decoder \<Rightarrow> byte list" where
  "remaining dec = drop (pos dec) (take (size_dec dec) (data dec))"

definition advance :: "Decoder \<Rightarrow> nat \<Rightarrow> Decoder" where
  "advance dec n = dec\<lparr>pos := pos dec + n\<rparr>"

text \<open>
  \<open>decodes R x bs\<close>: wherever the unread input is a prefix of \<open>bs\<close> followed by anything,
  cut after \<open>j\<close> bytes, the reader \<open>R\<close> returns \<open>x\<close> and moves the cursor past \<open>bs\<close> when
  all of \<open>bs\<close> is there, and throws the runtime error otherwise.
\<close>

definition decodes :: "(Decoder \<Rightarrow> failure + ('a \<times> Decoder)) \<Rightarrow> 'a \<Rightarrow> byte list \<Rightarrow> bool" where
  "decodes R x bs \<longleftrightarrow>
     (\<forall>dec j tail. in_bounds dec \<longrightarrow> remaining dec = take j (bs @ tail) \<longrightarrow>
        R dec = (if length bs \<le> j then Inr (x, advance dec (length bs)) else Inl insufficient))"

subsection \<open>Wire images\<close>

text \<open>
  The bytes of one parameter, of one plugin and of a message, with the two boolean bytes
  and the two presence bytes of the parameter left open. With \<open>flag_byte\<close> in these four
  places they are the bytes the encoder writes (lemmas \<open>encode_parameter_bytes\<close>,
  \<open>encode_plugin_bytes\<close>, \<open>encode_plugin_message_bytes\<close>).
\<close>

definition flag_byte :: "bool \<Rightarrow> byte" where
  "flag_byte v = (if v then 0x01 else 0x00)"

definition values_bytes :: "string list option \<Rightarrow> byte list" where
  "values_bytes v =
     (case v of None \<Rightarrow> []
      | Some xs \<Rightarrow> write_array_length (length xs) [] @ encode_strings xs [] @ [])"

definition source_bytes :: "string option \<Rightarrow> byte list" where
  "source_bytes v = (case v of None \<Rightarrow> [] | Some s \<Rightarrow> write_string s [] @ [])"

definition parameter_bytes :: "byte \<Rightarrow> byte \<Rightarrow> byte \<Rightarrow> byte \<Rightarrow> Parameter \<Rightarrow> byte list" where
  "parameter_bytes c w fv fs p =
     write_string (DisplayName p) [] @ write_float32 (DefaultValue p) []
     @ write_float32 (CurrentValue p) [] @ write_int32 (Address p) []
     @ write_float32 (MaxValue p) [] @ write_float32 (MinValue p) []
     @ write_string (Unit p) [] @ write_string (Identifier p) []
     @ [c] @ [w] @ write_int64 (RawFlags p) []
     @ [fv] @ values_bytes (IndexedValues p)
     @ [fs] @ source_bytes (IndexedValuesSource p) @ []"

definition plugin_bytes :: "Plugin \<Rightarrow> byte list \<Rightarrow> byte list" where
  "plugin_bytes p bs =
     write_string (Name p) [] @ write_string (ManufacturerID p) []
     @ write_string (Type p) [] @ write_string (Subtype p) []
     @ write_array_length (length (Parameters p)) [] @ bs @ []"

definition message_bytes :: "nat \<Rightarrow> byte list \<Rightarrow> byte list" where
  "message_bytes n bs = write_array_length n [] @ bs @ []"


text \<open>
  The same for a whole Message: \<open>flag_bytes\<close> are the four bytes of one parameter
  (CanRamp, IsWritable, presence of IndexedValues, presence of IndexedValuesSource), one
  quadruple for each parameter of each plugin. \<open>flags_agree\<close>: each of the four bytes is
  non-zero exactly when the field is true or present. \<open>encoder_flags\<close> are the bytes the
  encoder writes.
\<close>

type_synonym flag_bytes = "byte \<times> byte \<times> byte \<times> byte"

definition flags_agree :: "flag_bytes \<Rightarrow> Parameter \<Rightarrow> bool" where
  "flags_agree f p \<longleftrightarrow>
     (case f of (c, w, fv, fs) \<Rightarrow>
        (c \<noteq> 0) = CanRamp p \<and> (w \<noteq> 0) = IsWritable p
        \<and> (fv \<noteq> 0) = (IndexedValues p \<noteq> None)
        \<and> (fs \<noteq> 0) = (IndexedValuesSource p \<noteq> None))"

definition encoder_flags :: "Parameter \<Rightarrow> flag_bytes" where
  "encoder_flags p =
     (flag_byte (CanRamp p), flag_byte (IsWritable p), flag_byte (IndexedValues p \<noteq> None),
      flag_byte (IndexedValuesSource p \<noteq> None))"

definition parameter_image :: "flag_bytes \<Rightarrow> Parameter \<Rightarrow> byte list" where
  "parameter_image f p = (case f of (c, w, fv, fs) \<Rightarrow> parameter_bytes c w fv fs p)"

fun parameters_image :: "flag_bytes list \<Rightarrow> Parameter list \<Rightarrow> byte list" where
  "parameters_image (f # fl) (p # ps) = parameter_image f p @ parameters_image fl ps"
| "parameters_image fl ps = []"

definition plugin_image :: "flag_bytes list \<Rightarrow> Plugin \<Rightarrow> byte list" where
  "plugin_image fl P = plugin_bytes P (parameters_image fl (Parameters P))"

fun plugins_image :: "flag_bytes list list \<Rightarrow> Plugin list \<Rightarrow> byte list" where
  "plugins_image (fl # fls) (P # Ps) = plugin_image fl P @ plugins_image fls Ps"
| "plugins_image fls Ps = []"

definition message_image :: "flag_bytes list list \<Rightarrow> Plugin list \<Rightarrow> byte list" where
  "message_image fls m = message_bytes (length m) (plugins_image fls m)"

definition flags_fit :: "flag_bytes list list \<Rightarrow> Plugin list \<Rightarrow> bool" where
  "flags_fit fls m \<longleftrightarrow> list_all2 (\<lambda>fl P. list_all2 flags_agree fl (Parameters P)) fls m"

text \<open>
  \<open>parses R img\<close>: whenever the reader \<open>R\<close> returns \<open>x\<close>, the bytes it has consumed are
  related to \<open>x\<close> by \<open>img\<close>, and the cursor is still inside the bounds.
\<close>

definition parses ::
  "(Decoder \<Rightarrow> failure + ('a \<times> Decoder)) \<Rightarrow> ('a \<Rightarrow> byte list \<Rightarrow> bool) \<Rightarrow> bool" where
  "parses R img \<longleftrightarrow>
     (\<forall>dec x dec'. in_bounds dec \<longrightarrow> R dec = Inr (x, dec') \<longrightarrow>
        in_bounds dec' \<and> (\<exists>bs. img x bs \<and> remaining dec = bs @ remaining dec'))"

subsection \<open>Sample values\<close>

definition sample_plugin :: Plugin where
  "sample_plugin = \<lparr>Name = ''Foo'', ManufacturerID = ''MFR1'', Type = ''aufx'',
                     Subtype = ''abcd'', Parameters = []\<rparr>"

definition sample_parameter :: Parameter where
  "sample_parameter =
     \<lparr>DisplayName = ''Gain'', DefaultValue = 0x3F800000, CurrentValue = 0, Address = 7,
      MaxValue = 0x7F800000, MinValue = 0xFFC00000, Unit = ''dB'', Identifier = ''gain'',
      CanRamp = True, IsWritable = False, RawFlags = - 2,
      IndexedValues = Some [''a'', ''b'', ''c''], IndexedValuesSource = None\<rparr>"

definition text_plugin :: "string \<Rightarrow> Parameter list \<Rightarrow> Plugin" where
  "text_plugin s ps = \<lparr>Name = s, ManufacturerID = s, Type = s, Subtype = s, Parameters = ps\<rparr>"

definition boundary_parameter :: "string \<Rightarrow> 64 word \<Rightarrow> Parameter" where
  "boundary_parameter s r =
     \<lparr>DisplayName = s, DefaultValue = 0, CurrentValue = 0, Address = 0, MaxValue = 0,
      MinValue = 0, Unit = s, Identifier = s, CanRamp = False, IsWritable = False,
      RawFlags = r, IndexedValues = Some [], IndexedValuesSource = Some s\<rparr>"

definition lenient_parameter :: Parameter where
  "lenient_parameter = sample_parameter\<lparr>IndexedValuesSource := Some ''src''\<rparr>"

definition lenient_message :: "Plugin list" where
  "lenient_message =
     [sample_plugin\<lparr>Parameters := [lenient_parameter, sample_parameter]\<rparr>, sample_plugin]"

definition lenient_flags :: "flag_bytes list list" where
  "lenient_flags = [[(0x02, 0x00, 0xFF, 0x80), (0x7F, 0x00, 0x03, 0x00)], []]"

text \<open>The Message of one plugin with one parameter whose two optional fields are set.\<close>

definition with_optionals :: "Plugin \<Rightarrow> Parameter \<Rightarrow> string list option \<Rightarrow> string option \<Rightarrow> Plugin list" where
  "with_optionals P p iv src =
     [P\<lparr>Parameters := [p\<lparr>IndexedValues := iv, IndexedValuesSource := src\<rparr>]\<rparr>]"

subsection \<open>Bounds safety of a reader\<close>

text \<open>
  From a state inside the bounds, the reader either throws the runtime error or returns
  with the cursor still inside the bounds; it never yields \<open>ReadPastLength\<close>.
\<close>

definition reads_in_bounds :: "(Decoder \<Rightarrow> failure + ('a \<times> Decoder)) \<Rightarrow> bool" where
  "reads_in_bounds R \<longleftrightarrow>
     (\<forall>dec. in_bounds dec \<longrightarrow>
        (case R dec of Inl e \<Rightarrow> e = insufficient | Inr (x, dec') \<Rightarrow> in_bounds dec'))"

subsection \<open>Handles\<close>

text \<open>
  A valid handle is non-null and refers to a live object. The decode operations create
  objects with at least one plugin only (lemmas \<open>plugin_decode_valid_handle\<close>,
  \<open>message_decode_valid_handle\<close>) and nothing changes the plugins afterwards. A valid
  parameter handle is non-null and its \<open>param\<close> pointer can be dereferenced.
\<close>

definition valid_plugin_handle :: "store \<Rightarrow> handle \<Rightarrow> bool" where
  "valid_plugin_handle st h \<longleftrightarrow>
     h \<noteq> 0 \<and> (case plugin_objs st h of None \<Rightarrow> False | Some impl \<Rightarrow> plugins impl \<noteq> [])"

definition valid_message_handle :: "store \<Rightarrow> handle \<Rightarrow> bool" where
  "valid_message_handle st h \<longleftrightarrow>
     h \<noteq> 0 \<and> (case message_objs st h of None \<Rightarrow> False | Some impl \<Rightarrow> items impl \<noteq> [])"

definition valid_parameter_handle :: "store \<Rightarrow> handle \<Rightarrow> bool" where
  "valid_parameter_handle st h \<longleftrightarrow>
     h \<noteq> 0 \<and> (case deref_param h st of Inl e \<Rightarrow> False | Inr p \<Rightarrow> True)"

text \<open>The store after a successful encode on the object \<open>impl\<close> at \<open>h\<close>.\<close>

definition plugin_encoded :: "handle \<Rightarrow> PluginHandleImpl \<Rightarrow> store \<Rightarrow> store" where
  "plugin_encoded h impl st =
     st\<lparr>plugin_objs := (plugin_objs st)(h \<mapsto>
          impl\<lparr>encoded_data := encode_plugin_message (plugins impl)\<rparr>)\<rparr>"

definition message_encoded :: "handle \<Rightarrow> MessageHandleImpl \<Rightarrow> store \<Rightarrow> store" where
  "message_encoded h impl st =
     st\<lparr>message_objs := (message_objs st)(h \<mapsto>
          impl\<lparr>encoded_data_m := encode_plugin_message (items impl)\<rparr>)\<rparr>"

text \<open>
  Stores of the sample runs: after \<open>plugin_decode\<close> of the sample Message in the empty
  store, after \<open>plugin_free\<close> of that handle, and a store with a plugin object at 1, a
  parameter handle at 2 for its first parameter, and a message object at 3.
\<close>

definition after_decode :: store where
  "after_decode =
     \<lparr>plugin_objs = [1 \<mapsto> \<lparr>plugins = [sample_plugin], error = [], encoded_data = []\<rparr>],
      parameter_objs = Map.empty, message_objs = Map.empty, next_addr = 2\<rparr>"

definition after_free :: store where
  "after_free =
     \<lparr>plugin_objs = Map.empty, parameter_objs = Map.empty, message_objs = Map.empty,
      next_addr = 2\<rparr>"

definition decoded_store :: store where
  "decoded_store =
     \<lparr>plugin_objs = [1 \<mapsto> \<lparr>plugins = [sample_plugin\<lparr>Parameters := [sample_parameter]\<rparr>],
                              error = [], encoded_data = []\<rparr>],
      parameter_objs = [2 \<mapsto> \<lparr>param = (1, 0)\<rparr>],
      message_objs = [3 \<mapsto> \<lparr>items = [sample_plugin], error_m = [], encoded_data_m = []\<rparr>],
      next_addr = 4\<rparr>"

section \<open>Codec lemmas\<close>

lemma bnd_Inl: "bnd (Inl e) f = Inl e"
  by (simp add: bnd_def)

lemma bnd_Inr: "bnd (Inr x) f = f x"
  by (simp add: bnd_def)

lemmas bnd_simps = bnd_Inl bnd_Inr

lemma length_remaining: "in_bounds dec \<Longrightarrow> length (remaining dec) = size_dec dec - pos dec"
  by (simp add: in_bounds_def remaining_def)

lemma check_remaining_eq:
  "in_bounds dec \<Longrightarrow>
   check_remaining dec n = (if n \<le> length (remaining dec) then Inr () else Inl insufficient)"
  by (auto simp: check_remaining_def length_remaining in_bounds_def)

lemma byte_at_remaining:
  "in_bounds dec \<Longrightarrow> i < length (remaining dec) \<Longrightarrow>
   byte_at dec (pos dec + i) = Inr (remaining dec ! i)"
  by (auto simp: byte_at_def length_remaining in_bounds_def remaining_def)

lemma byte_at_remaining0:
  "in_bounds dec \<Longrightarrow> 0 < length (remaining dec) \<Longrightarrow>
   byte_at dec (pos dec) = Inr (remaining dec ! 0)"
  using byte_at_remaining [of dec 0] by simp

lemma byte_at_remaining1:
  "in_bounds dec \<Longrightarrow> 1 < length (remaining dec) \<Longrightarrow>
   byte_at dec (Suc (pos dec)) = Inr (remaining dec ! 1)"
  using byte_at_remaining [of dec 1] by simp

lemma byte_at_remaining2:
  "in_bounds dec \<Longrightarrow> 2 < length (remaining dec) \<Longrightarrow>
   byte_at dec (Suc (Suc (pos dec))) = Inr (remaining dec ! 2)"
  using byte_at_remaining [of dec 2] by simp

lemmas byte_at_simps =
  byte_at_remaining0 byte_at_remaining1 byte_at_remaining2 byte_at_remaining

lemma remaining_advance: "remaining (advance dec n) = drop n (remaining dec)"
  by (simp add: remaining_def advance_def add.commute)

lemma in_bounds_advance:
  "in_bounds dec \<Longrightarrow> n \<le> length (remaining dec) \<Longrightarrow> in_bounds (advance dec n)"
  by (auto simp: in_bounds_def advance_def remaining_def)

lemma advance_advance: "advance (advance dec a) b = advance dec (a + b)"
  by (simp add: advance_def add.assoc)

lemma bytes_at_take_drop:
  "i + n \<le> size_dec dec \<Longrightarrow> size_dec dec \<le> length (data dec) \<Longrightarrow>
   bytes_at dec i n = Inr (take n (drop i (data dec)))"
proof (induction n arbitrary: i)
  case 0
  then show ?case by simp
next
  case (Suc n)
  from Suc.prems have i: "i < size_dec dec" "i < length (data dec)" by simp_all
  from Suc.prems have "bytes_at dec (Suc i) n = Inr (take n (drop (Suc i) (data dec)))"
    by (intro Suc.IH) simp_all
  with i show ?case
    by (simp add: bnd_def byte_at_def take_Suc_conv_app_nth Cons_nth_drop_Suc [symmetric])
qed

lemma bytes_at_remaining:
  assumes "in_bounds dec" "n \<le> length (remaining dec)"
  shows "bytes_at dec (pos dec) n = Inr (take n (remaining dec))"
proof -
  from assms have le: "pos dec + n \<le> size_dec dec" "size_dec dec \<le> length (data dec)"
    by (auto simp: length_remaining in_bounds_def)
  then have "take n (remaining dec) = take n (drop (pos dec) (data dec))"
    by (simp add: remaining_def drop_take min_def)
  with le show ?thesis by (simp add: bytes_at_take_drop)
qed

lemma decodesI:
  assumes "\<And>dec j tail. in_bounds dec \<Longrightarrow> remaining dec = take j (bs @ tail) \<Longrightarrow>
             R dec = (if length bs \<le> j then Inr (x, advance dec (length bs)) else Inl insufficient)"
  shows "decodes R x bs"
  using assms by (simp add: decodes_def)

lemma decodesD:
  assumes "decodes R x bs" "in_bounds dec" "remaining dec = take j (bs @ tail)"
  shows "R dec = (if length bs \<le> j then Inr (x, advance dec (length bs)) else Inl insufficient)"
  using assms unfolding decodes_def by blast

lemma decodes_return: "decodes (\<lambda>dec. Inr (x, dec)) x []"
  by (rule decodesI) (simp add: advance_def)

lemma decodes_bnd:
  assumes R1: "decodes R1 a bs1" and R2: "decodes (g a) y bs2"
  shows "decodes (\<lambda>dec. bnd (R1 dec) (case_prod g)) y (bs1 @ bs2)"
proof (rule decodesI)
  fix dec j tail
  assume ib: "in_bounds dec" and rem: "remaining dec = take j ((bs1 @ bs2) @ tail)"
  from rem have rem1: "remaining dec = take j (bs1 @ (bs2 @ tail))" by simp
  note r1 = decodesD [OF R1 ib rem1]
  show "bnd (R1 dec) (case_prod g) =
        (if length (bs1 @ bs2) \<le> j then Inr (y, advance dec (length (bs1 @ bs2)))
         else Inl insufficient)"
  proof (cases "length bs1 \<le> j")
    case False
    with r1 show ?thesis by (simp add: bnd_def)
  next
    case True
    with rem1 have "length bs1 \<le> length (remaining dec)" by simp
    with ib have ib1: "in_bounds (advance dec (length bs1))" by (rule in_bounds_advance)
    have rem2: "remaining (advance dec (length bs1)) = take (j - length bs1) (bs2 @ tail)"
      using True by (simp add: remaining_advance rem1 drop_take)
    note r2 = decodesD [OF R2 ib1 rem2]
    from True r1 r2 show ?thesis
      by (auto simp: bnd_def advance_advance)
  qed
qed

lemma le16:
  "(ucast (ucast (w :: 16 word) :: byte) :: 16 word)
     OR push_bit 8 (ucast (ucast (drop_bit 8 w) :: byte)) = w"
proof (rule bit_word_eqI)
  fix n assume "n < LENGTH(16)"
  then have n: "n < 16" by simp
  show "bit ((ucast (ucast w :: byte) :: 16 word)
     OR push_bit 8 (ucast (ucast (drop_bit 8 w) :: byte))) n = bit w n"
    using n
    apply (simp add: bit_simps le_add_diff_inverse less_diff_conv2 cong: conj_cong)
    apply (cases "bit w n")
     apply simp_all
    apply arith
    done
qed

lemma le32:
  "(ucast (ucast (w :: 32 word) :: byte) :: 32 word)
     OR push_bit 8 (ucast (ucast (drop_bit 8 w) :: byte))
     OR push_bit 16 (ucast (ucast (drop_bit 16 w) :: byte))
     OR push_bit 24 (ucast (ucast (drop_bit 24 w) :: byte)) = w"
proof (rule bit_word_eqI)
  fix n assume "n < LENGTH(32)"
  then have n: "n < 32" by simp
  show "bit ((ucast (ucast w :: byte) :: 32 word)
     OR push_bit 8 (ucast (ucast (drop_bit 8 w) :: byte))
     OR push_bit 16 (ucast (ucast (drop_bit 16 w) :: byte))
     OR push_bit 24 (ucast (ucast (drop_bit 24 w) :: byte))) n = bit w n"
    using n
    apply (simp add: bit_simps le_add_diff_inverse less_diff_conv2 cong: conj_cong)
    apply (cases "bit w n")
     apply simp_all
    apply arith
    done
qed

lemma le64:
  "(ucast (ucast (w :: 64 word) :: byte) :: 64 word)
     OR push_bit 8 (ucast (ucast (drop_bit 8 w) :: byte))
     OR push_bit 16 (ucast (ucast (drop_bit 16 w) :: byte))
     OR push_bit 24 (ucast (ucast (drop_bit 24 w) :: byte))
     OR push_bit 32 (ucast (ucast (drop_bit 32 w) :: byte))
     OR push_bit 40 (ucast (ucast (drop_bit 40 w) :: byte))
     OR push_bit 48 (ucast (ucast (drop_bit 48 w) :: byte))
     OR push_bit 56 (ucast (ucast (drop_bit 56 w) :: byte)) = w"
proof (rule bit_word_eqI)
  fix n assume "n < LENGTH(64)"
  then have n: "n < 64" by simp
  show "bit ((ucast (ucast w :: byte) :: 64 word)
     OR push_bit 8 (ucast (ucast (drop_bit 8 w) :: byte))
     OR push_bit 16 (ucast (ucast (drop_bit 16 w) :: byte))
     OR push_bit 24 (ucast (ucast (drop_bit 24 w) :: byte))
     OR push_bit 32 (ucast (ucast (drop_bit 32 w) :: byte))
     OR push_bit 40 (ucast (ucast (drop_bit 40 w) :: byte))
     OR push_bit 48 (ucast (ucast (drop_bit 48 w) :: byte))
     OR push_bit 56 (ucast (ucast (drop_bit 56 w) :: byte))) n = bit w n"
    using n
    apply (simp add: bit_simps le_add_diff_inverse less_diff_conv2 cong: conj_cong)
    apply (cases "bit w n")
     apply simp_all
    apply arith
    done
qed

lemma char_of_byte_of_char: "char_of_byte (byte_of_char c) = c"
proof -
  have "(of_char c :: byte) = of_nat (of_char c)" by (simp add: of_nat_of_char)
  then have "unat (of_char c :: byte) = of_char c mod 256" by (simp add: unat_of_nat)
  then show ?thesis by (simp add: byte_of_char_def char_of_byte_def)
qed

lemma map_char_of_byte_of_char: "map (char_of_byte \<circ> byte_of_char) s = s"
  by (simp add: comp_def char_of_byte_of_char)

lemma unat_len16: "n \<le> 65535 \<Longrightarrow> unat (of_nat n :: 16 word) = n"
  by (simp add: unat_of_nat)

lemma decodes_bool: "decodes read_bool (b \<noteq> 0) [b]"
proof (rule decodesI)
  fix dec j tail
  assume ib: "in_bounds dec" and rem: "remaining dec = take j ([b] @ tail)"
  show "read_bool dec =
        (if length [b] \<le> j then Inr (b \<noteq> 0, advance dec (length [b])) else Inl insufficient)"
  proof (cases "1 \<le> j")
    case False
    with rem have "remaining dec = []" by simp
    with ib False show ?thesis
      by (simp add: read_bool_def check_remaining_eq bnd_def)
  next
    case True
    with rem have "remaining dec = b # take (j - 1) tail" by (simp add: take_Cons')
    with ib True show ?thesis
      by (simp add: read_bool_def check_remaining_eq byte_at_remaining0 bnd_def advance_def)
  qed
qed

lemma decodes_int32: "decodes read_int32 v (write_int32 v [])"
proof (rule decodesI)
  fix dec j tail
  let ?bs = "write_int32 v []"
  assume ib: "in_bounds dec" and rem: "remaining dec = take j (?bs @ tail)"
  have len: "length ?bs = 4" by (simp add: write_int32_def)
  show "read_int32 dec =
        (if length ?bs \<le> j then Inr (v, advance dec (length ?bs)) else Inl insufficient)"
  proof (cases "4 \<le> j")
    case False
    with rem len have "\<not> 4 \<le> length (remaining dec)" by simp
    with ib False len show ?thesis
      by (simp add: read_int32_def check_remaining_eq bnd_def)
  next
    case True
    with rem len have "remaining dec = ?bs @ take (j - 4) tail" by simp
    then have "remaining dec = ucast v # ucast (drop_bit 8 v) # ucast (drop_bit 16 v)
        # ucast (drop_bit 24 v) # take (j - 4) tail"
      by (simp add: write_int32_def)
    with ib True len show ?thesis
      by (simp add: read_int32_def check_remaining_eq byte_at_simps
          bnd_def advance_def le32)
  qed
qed

lemma decodes_int64: "decodes read_int64 v (write_int64 v [])"
proof (rule decodesI)
  fix dec j tail
  let ?bs = "write_int64 v []"
  assume ib: "in_bounds dec" and rem: "remaining dec = take j (?bs @ tail)"
  have len: "length ?bs = 8" by (simp add: write_int64_def)
  show "read_int64 dec =
        (if length ?bs \<le> j then Inr (v, advance dec (length ?bs)) else Inl insufficient)"
  proof (cases "8 \<le> j")
    case False
    with rem len have "\<not> 8 \<le> length (remaining dec)" by simp
    with ib False len show ?thesis
      by (simp add: read_int64_def check_remaining_eq bnd_def)
  next
    case True
    with rem len have "remaining dec = ?bs @ take (j - 8) tail" by simp
    then have "remaining dec = ucast v # ucast (drop_bit 8 v) # ucast (drop_bit 16 v)
        # ucast (drop_bit 24 v) # ucast (drop_bit 32 v) # ucast (drop_bit 40 v)
        # ucast (drop_bit 48 v) # ucast (drop_bit 56 v) # take (j - 8) tail"
      by (simp add: write_int64_def)
    with ib True len show ?thesis
      by (simp add: read_int64_def check_remaining_eq byte_at_simps
          bnd_def advance_def le64)
  qed
qed

lemma decodes_float32: "decodes read_float32 v (write_float32 v [])"
proof -
  have "decodes (\<lambda>dec. bnd (read_int32 dec) (case_prod (\<lambda>u dec. Inr (u, dec)))) v
          (write_int32 v [] @ [])"
    by (rule decodes_bnd [OF decodes_int32 decodes_return])
  then show ?thesis
    by (simp add: read_float32_def [abs_def] write_float32_def)
qed

lemma decodes_array_length:
  assumes "n \<le> 65535"
  shows "decodes read_array_length (of_nat n) (write_array_length n [])"
proof (rule decodesI)
  fix dec j tail
  let ?bs = "write_array_length n []"
  let ?len = "of_nat n :: 16 word"
  assume ib: "in_bounds dec" and rem: "remaining dec = take j (?bs @ tail)"
  have len: "length ?bs = 2" by (simp add: write_array_length_def write_byte_def Let_def)
  show "read_array_length dec =
        (if length ?bs \<le> j then Inr (?len, advance dec (length ?bs)) else Inl insufficient)"
  proof (cases "2 \<le> j")
    case False
    with rem len have "\<not> 2 \<le> length (remaining dec)" by simp
    with ib False len show ?thesis
      by (simp add: read_array_length_def check_remaining_eq bnd_def)
  next
    case True
    with rem len have "remaining dec = ?bs @ take (j - 2) tail" by simp
    then have "remaining dec = ucast ?len # ucast (drop_bit 8 ?len) # take (j - 2) tail"
      by (simp add: write_array_length_def write_byte_def Let_def)
    with ib True len show ?thesis
      by (simp add: read_array_length_def check_remaining_eq byte_at_simps bnd_def advance_def le16)
  qed
qed

lemma decodes_string:
  assumes s: "length s \<le> 65535"
  shows "decodes read_string s (write_string s [])"
proof (rule decodesI)
  fix dec j tail
  let ?bs = "write_string s []"
  let ?len = "of_nat (length s) :: 16 word"
  let ?body = "map byte_of_char s"
  assume ib: "in_bounds dec" and rem: "remaining dec = take j (?bs @ tail)"
  have bs: "?bs = ucast ?len # ucast (drop_bit 8 ?len) # ?body"
    by (simp add: write_string_def Let_def)
  have len: "length ?bs = 2 + length s" by (simp add: write_string_def Let_def)
  show "read_string dec =
        (if length ?bs \<le> j then Inr (s, advance dec (length ?bs)) else Inl insufficient)"
  proof (cases "2 \<le> j")
    case False
    with rem len have "\<not> 2 \<le> length (remaining dec)" by simp
    with ib False len show ?thesis
      by (simp add: read_string_def check_remaining_eq bnd_def)
  next
    case True
    define k where "k = j - 2"
    with True have j: "j = Suc (Suc k)" by simp
    from rem have rem0: "remaining dec
        = ucast ?len # ucast (drop_bit 8 ?len) # take k (?body @ tail)"
      unfolding bs j by simp
    from ib rem0 have ib1: "in_bounds (advance dec 2)" by (simp add: in_bounds_advance)
    from rem0 have rem1: "remaining (advance dec 2) = take k (?body @ tail)"
      by (simp add: remaining_advance)
    have hdr: "read_string dec =
        bnd (check_remaining (advance dec 2) (length s)) (\<lambda>_.
        bnd (bytes_at (advance dec 2) (pos (advance dec 2)) (length s)) (\<lambda>bs.
        Inr (map char_of_byte bs, advance (advance dec 2) (length s))))"
      using ib rem0 s
      by (simp add: read_string_def check_remaining_eq byte_at_simps
          bnd_simps advance_def le16 unat_len16 Let_def)
    show ?thesis
    proof (cases "length s \<le> k")
      case False
      with rem1 have "\<not> length s \<le> length (remaining (advance dec 2))" by simp
      with ib1 False j len show ?thesis
        by (simp add: hdr check_remaining_eq bnd_def)
    next
      case le: True
      with rem1 have rem2: "remaining (advance dec 2) = ?body @ take (k - length s) tail"
        by simp
      then have "length s \<le> length (remaining (advance dec 2))" by simp
      with ib1 have "bytes_at (advance dec 2) (pos (advance dec 2)) (length s)
          = Inr (take (length s) (remaining (advance dec 2)))"
        by (rule bytes_at_remaining)
      with rem2 have "bytes_at (advance dec 2) (pos (advance dec 2)) (length s) = Inr ?body"
        by simp
      with ib1 rem2 le j len show ?thesis
        by (simp add: hdr check_remaining_eq bnd_def map_char_of_byte_of_char advance_advance)
    qed
  qed
qed

lemma write_string_append: "write_string s buf = buf @ write_string s []"
  by (simp add: write_string_def Let_def)

lemma write_int32_append: "write_int32 v buf = buf @ write_int32 v []"
  by (simp add: write_int32_def)

lemma write_int64_append: "write_int64 v buf = buf @ write_int64 v []"
  by (simp add: write_int64_def)

lemma write_float32_append: "write_float32 v buf = buf @ write_float32 v []"
  by (simp add: write_float32_def write_int32_def)

lemma write_array_length_append: "write_array_length n buf = buf @ write_array_length n []"
  by (simp add: write_array_length_def write_byte_def Let_def)

lemma encode_strings_append: "encode_strings xs buf = buf @ encode_strings xs []"
proof (induction xs arbitrary: buf)
  case Nil
  then show ?case by simp
next
  case (Cons x xs)
  have "encode_strings (x # xs) buf = write_string x buf @ encode_strings xs []"
    using Cons.IH [of "write_string x buf"] by simp
  also have "\<dots> = buf @ write_string x [] @ encode_strings xs []"
    using write_string_append [of x buf] by simp
  also have "write_string x [] @ encode_strings xs [] = encode_strings (x # xs) []"
    using Cons.IH [of "write_string x []"] by simp
  finally show ?case .
qed

lemma encode_strings_Cons:
  "encode_strings (x # xs) [] = write_string x [] @ encode_strings xs []"
  using encode_strings_append [of xs "write_string x []"] by simp

lemma encode_parameter_bytes:
  "encode_parameter p buf =
     buf @ parameter_bytes (flag_byte (CanRamp p)) (flag_byte (IsWritable p))
             (flag_byte (IndexedValues p \<noteq> None)) (flag_byte (IndexedValuesSource p \<noteq> None)) p"
proof -
  define sb where "sb s = write_string s []" for s
  define fb where "fb v = write_float32 v []" for v
  define ib where "ib v = write_int32 v []" for v
  define lb where "lb v = write_int64 v []" for v
  define nb where "nb n = write_array_length n []" for n
  define xb where "xb xs = encode_strings xs []" for xs
  have rules: "write_string s b = b @ sb s" "write_float32 v b = b @ fb v"
    "write_int32 w b = b @ ib w" "write_int64 l b = b @ lb l"
    "write_array_length n b = b @ nb n" "encode_strings xs b = b @ xb xs"
    for s v w l n xs b
    unfolding sb_def fb_def ib_def lb_def nb_def xb_def
    by (rule write_string_append write_float32_append write_int32_append write_int64_append
        write_array_length_append encode_strings_append)+
  show ?thesis
    by (simp add: encode_parameter_def Let_def parameter_bytes_def values_bytes_def
        source_bytes_def flag_byte_def write_bool_def write_byte_def rules
        split: option.splits)
qed

lemma decodes_result:
  "x = y \<Longrightarrow> decodes (\<lambda>dec. Inr (x, dec)) y []"
  by (simp add: decodes_return)

lemma decodes_valid_string: "valid_string s \<Longrightarrow> decodes read_string s (write_string s [])"
  by (simp add: valid_string_def decodes_string)

lemma decode_strings_Suc:
  "decode_strings (Suc n) tmp =
     (\<lambda>dec. bnd (read_string dec) (case_prod (\<lambda>elem2 dec. decode_strings n (tmp @ [elem2]) dec)))"
  by (rule ext) simp

lemma decodes_strings:
  "list_all valid_string xs \<Longrightarrow>
   decodes (decode_strings (length xs) tmp) (tmp @ xs) (encode_strings xs [])"
proof (induction xs arbitrary: tmp)
  case Nil
  show ?case using decodes_return [of tmp] by (simp add: decodes_def)
next
  case (Cons x xs)
  from Cons.prems have x: "valid_string x" and xs: "list_all valid_string xs" by simp_all
  have "decodes (decode_strings (length xs) (tmp @ [x])) (tmp @ x # xs) (encode_strings xs [])"
    using Cons.IH [OF xs, of "tmp @ [x]"] by simp
  then have "decodes (\<lambda>dec. bnd (read_string dec)
                (case_prod (\<lambda>elem2 dec. decode_strings (length xs) (tmp @ [elem2]) dec)))
              (tmp @ x # xs) (write_string x [] @ encode_strings xs [])"
    by (rule decodes_bnd [OF decodes_valid_string [OF x]])
  then show ?case
    using encode_strings_append [of xs "write_string x []"] by (simp add: decode_strings_Suc)
qed

lemma decodes_values:
  assumes "has = (v \<noteq> None)"
    and "case v of None \<Rightarrow> True | Some xs \<Rightarrow> length xs \<le> 65535 \<and> list_all valid_string xs"
  shows "decodes (\<lambda>dec. if has
           then bnd (read_array_length dec) (\<lambda>(len, dec).
                bnd (decode_strings (unat len) [] dec) (\<lambda>(tmp, dec).
                Inr (Some tmp, dec)))
           else Inr (None, dec)) v (values_bytes v)"
proof (cases v)
  case None
  with assms show ?thesis by (simp add: values_bytes_def decodes_return)
next
  case (Some xs)
  with assms have n: "length xs \<le> 65535" and xs: "list_all valid_string xs" by simp_all
  have "decodes (decode_strings (unat (of_nat (length xs) :: 16 word)) []) xs
          (encode_strings xs [])"
    unfolding unat_len16 [OF n] using decodes_strings [OF xs, of "[]"] by simp
  then have "decodes (\<lambda>dec. bnd (decode_strings (unat (of_nat (length xs) :: 16 word)) [] dec)
          (\<lambda>(tmp, dec). Inr (Some tmp, dec))) (Some xs) (encode_strings xs [] @ [])"
    by (rule decodes_bnd) (rule decodes_return)
  with decodes_array_length [OF n]
  have "decodes (\<lambda>dec. bnd (read_array_length dec) (\<lambda>(len, dec).
                bnd (decode_strings (unat len) [] dec) (\<lambda>(tmp, dec).
                Inr (Some tmp, dec)))) (Some xs)
          (write_array_length (length xs) [] @ encode_strings xs [] @ [])"
    by (rule decodes_bnd)
  with Some assms show ?thesis by (simp add: values_bytes_def)
qed

lemma decodes_source:
  assumes "has = (v \<noteq> None)"
    and "case v of None \<Rightarrow> True | Some s \<Rightarrow> valid_string s"
  shows "decodes (\<lambda>dec. if has
           then bnd (read_string dec) (\<lambda>(s, dec). Inr (Some s, dec))
           else Inr (None, dec)) v (source_bytes v)"
proof (cases v)
  case None
  with assms show ?thesis by (simp add: source_bytes_def decodes_return)
next
  case (Some s)
  with assms have s: "valid_string s" by simp
  have "decodes (\<lambda>dec. bnd (read_string dec) (\<lambda>(s, dec). Inr (Some s, dec))) (Some s)
          (write_string s [] @ [])"
    by (rule decodes_bnd [OF decodes_valid_string [OF s]]) (rule decodes_return)
  with Some assms show ?thesis by (simp add: source_bytes_def)
qed

lemma decodes_parameter:
  assumes v: "valid_parameter p"
    and flags: "(c \<noteq> 0) = CanRamp p" "(w \<noteq> 0) = IsWritable p"
      "(fv \<noteq> 0) = (IndexedValues p \<noteq> None)" "(fs \<noteq> 0) = (IndexedValuesSource p \<noteq> None)"
  shows "decodes decode_parameter p (parameter_bytes c w fv fs p)"
proof -
  from v have s: "decodes read_string (DisplayName p) (write_string (DisplayName p) [])"
    "decodes read_string (Unit p) (write_string (Unit p) [])"
    "decodes read_string (Identifier p) (write_string (Identifier p) [])"
    by (simp_all add: valid_parameter_def decodes_valid_string)
  from v have ok: "case IndexedValues p of None \<Rightarrow> True
      | Some xs \<Rightarrow> length xs \<le> 65535 \<and> list_all valid_string xs"
    "case IndexedValuesSource p of None \<Rightarrow> True | Some s \<Rightarrow> valid_string s"
    by (simp_all add: valid_parameter_def)
  note opt = decodes_values [OF flags(3) ok(1)] decodes_source [OF flags(4) ok(2)]
  show ?thesis
    unfolding decode_parameter_def [abs_def] parameter_bytes_def
    apply (rule decodes_bnd s opt decodes_float32 decodes_int32 decodes_int64 decodes_bool)+
    apply (rule decodes_result)
    apply (simp add: flags)
    done
qed

lemma encode_parameter_append: "encode_parameter p buf = buf @ encode_parameter p []"
  using encode_parameter_bytes [of p buf] encode_parameter_bytes [of p "[]"] by simp

lemma encode_parameters_append: "encode_parameters ps buf = buf @ encode_parameters ps []"
proof (induction ps arbitrary: buf)
  case Nil
  then show ?case by simp
next
  case (Cons p ps)
  have "encode_parameters (p # ps) buf = encode_parameter p buf @ encode_parameters ps []"
    using Cons.IH [of "encode_parameter p buf"] by simp
  also have "\<dots> = buf @ encode_parameter p [] @ encode_parameters ps []"
    using encode_parameter_append [of p buf] by simp
  also have "encode_parameter p [] @ encode_parameters ps [] = encode_parameters (p # ps) []"
    using Cons.IH [of "encode_parameter p []"] by simp
  finally show ?case .
qed

lemma decodes_encoded_parameter:
  assumes "valid_parameter p"
  shows "decodes decode_parameter p (encode_parameter p [])"
proof -
  have "decodes decode_parameter p
          (parameter_bytes (flag_byte (CanRamp p)) (flag_byte (IsWritable p))
             (flag_byte (IndexedValues p \<noteq> None)) (flag_byte (IndexedValuesSource p \<noteq> None)) p)"
    using assms by (rule decodes_parameter) (simp_all add: flag_byte_def)
  then show ?thesis using encode_parameter_bytes [of p "[]"] by simp
qed

lemma decode_parameters_Suc:
  "decode_parameters (Suc n) params =
     (\<lambda>dec. bnd (decode_parameter dec)
        (case_prod (\<lambda>elem1 dec. decode_parameters n (params @ [elem1]) dec)))"
  by (rule ext) simp

lemma decodes_parameters:
  "list_all valid_parameter ps \<Longrightarrow>
   decodes (decode_parameters (length ps) params) (params @ ps) (encode_parameters ps [])"
proof (induction ps arbitrary: params)
  case Nil
  show ?case using decodes_return [of params] by (simp add: decodes_def)
next
  case (Cons p ps)
  from Cons.prems have p: "valid_parameter p" and ps: "list_all valid_parameter ps"
    by simp_all
  have "decodes (decode_parameters (length ps) (params @ [p])) (params @ p # ps)
          (encode_parameters ps [])"
    using Cons.IH [OF ps, of "params @ [p]"] by simp
  then have "decodes (\<lambda>dec. bnd (decode_parameter dec)
                (case_prod (\<lambda>elem1 dec. decode_parameters (length ps) (params @ [elem1]) dec)))
              (params @ p # ps) (encode_parameter p [] @ encode_parameters ps [])"
    by (rule decodes_bnd [OF decodes_encoded_parameter [OF p]])
  then show ?case
    using encode_parameters_append [of ps "encode_parameter p []"]
    by (simp add: decode_parameters_Suc)
qed

lemma encode_plugin_bytes:
  "encode_plugin p buf = buf @ plugin_bytes p (encode_parameters (Parameters p) [])"
  using write_string_append [of "Name p" buf]
    write_string_append [of "ManufacturerID p" "write_string (Name p) buf"]
    write_string_append [of "Type p" "write_string (ManufacturerID p) (write_string (Name p) buf)"]
    write_string_append [of "Subtype p"
      "write_string (Type p) (write_string (ManufacturerID p) (write_string (Name p) buf))"]
    write_array_length_append [of "length (Parameters p)" "write_string (Subtype p)
      (write_string (Type p) (write_string (ManufacturerID p) (write_string (Name p) buf)))"]
    encode_parameters_append [of "Parameters p" "write_array_length (length (Parameters p))
      (write_string (Subtype p)
      (write_string (Type p) (write_string (ManufacturerID p) (write_string (Name p) buf))))"]
  by (simp add: encode_plugin_def plugin_bytes_def Let_def)

lemma decodes_plugin_bytes:
  assumes s: "valid_string (Name p)" "valid_string (ManufacturerID p)" "valid_string (Type p)"
      "valid_string (Subtype p)"
    and n: "length (Parameters p) \<le> 65535"
    and ps: "decodes (decode_parameters (length (Parameters p)) []) (Parameters p) bs"
  shows "decodes decode_plugin p (plugin_bytes p bs)"
proof -
  note str = s [THEN decodes_valid_string]
  from ps have ps': "decodes (decode_parameters (unat (of_nat (length (Parameters p)) :: 16 word)) [])
      (Parameters p) bs"
    by (simp add: unat_len16 [OF n])
  show ?thesis
    unfolding decode_plugin_def [abs_def] plugin_bytes_def
    apply (rule decodes_bnd str decodes_array_length [OF n] ps')+
    apply (rule decodes_result)
    apply simp
    done
qed

lemma decodes_encoded_plugin:
  assumes "valid_plugin p"
  shows "decodes decode_plugin p (encode_plugin p [])"
proof -
  from assms have "decodes (decode_parameters (length (Parameters p)) []) (Parameters p)
      (encode_parameters (Parameters p) [])"
    using decodes_parameters [of "Parameters p" "[]"] by (simp add: valid_plugin_def)
  with assms have "decodes decode_plugin p (plugin_bytes p (encode_parameters (Parameters p) []))"
    by (intro decodes_plugin_bytes) (simp_all add: valid_plugin_def)
  then show ?thesis using encode_plugin_bytes [of p "[]"] by simp
qed

lemma encode_plugin_append: "encode_plugin p buf = buf @ encode_plugin p []"
  using encode_plugin_bytes [of p buf] encode_plugin_bytes [of p "[]"] by simp

lemma encode_plugins_append: "encode_plugins ps buf = buf @ encode_plugins ps []"
proof (induction ps arbitrary: buf)
  case Nil
  then show ?case by simp
next
  case (Cons p ps)
  have "encode_plugins (p # ps) buf = encode_plugin p buf @ encode_plugins ps []"
    using Cons.IH [of "encode_plugin p buf"] by simp
  also have "\<dots> = buf @ encode_plugin p [] @ encode_plugins ps []"
    using encode_plugin_append [of p buf] by simp
  also have "encode_plugin p [] @ encode_plugins ps [] = encode_plugins (p # ps) []"
    using Cons.IH [of "encode_plugin p []"] by simp
  finally show ?case .
qed

lemma decode_plugins_Suc:
  "decode_plugins (Suc n) result =
     (\<lambda>dec. bnd (decode_plugin dec)
        (case_prod (\<lambda>elem0 dec. decode_plugins n (result @ [elem0]) dec)))"
  by (rule ext) simp

lemma decodes_plugins:
  "list_all valid_plugin ps \<Longrightarrow>
   decodes (decode_plugins (length ps) result) (result @ ps) (encode_plugins ps [])"
proof (induction ps arbitrary: result)
  case Nil
  show ?case using decodes_return [of result] by (simp add: decodes_def)
next
  case (Cons p ps)
  from Cons.prems have p: "valid_plugin p" and ps: "list_all valid_plugin ps"
    by simp_all
  have "decodes (decode_plugins (length ps) (result @ [p])) (result @ p # ps)
          (encode_plugins ps [])"
    using Cons.IH [OF ps, of "result @ [p]"] by simp
  then have "decodes (\<lambda>dec. bnd (decode_plugin dec)
                (case_prod (\<lambda>elem0 dec. decode_plugins (length ps) (result @ [elem0]) dec)))
              (result @ p # ps) (encode_plugin p [] @ encode_plugins ps [])"
    by (rule decodes_bnd [OF decodes_encoded_plugin [OF p]])
  then show ?case
    using encode_plugins_append [of ps "encode_plugin p []"]
    by (simp add: decode_plugins_Suc)
qed

lemma encode_plugin_message_bytes:
  "encode_plugin_message m = message_bytes (length m) (encode_plugins m [])"
  using encode_plugins_append [of m "write_array_length (length m) []"]
  by (simp add: encode_plugin_message_def message_bytes_def)

lemma decode_plugin_message_bytes:
  assumes ps: "decodes (decode_plugins (length m) []) m bs"
    and n: "length m \<le> 65535"
    and k: "k \<le> length d"
    and d: "take k d = take k (message_bytes (length m) bs)"
  shows "decode_plugin_message d k =
     (if length (message_bytes (length m) bs) \<le> k then Inr m else Inl insufficient)"
proof -
  let ?dec = "\<lparr>data = d, size_dec = k, pos = 0\<rparr>"
  let ?M = "\<lambda>dec. bnd (read_array_length dec) (\<lambda>(len, dec).
      bnd (decode_plugins (unat len) [] dec) (\<lambda>(result, dec). Inr (result, dec)))"
  from ps have ps': "decodes (decode_plugins (unat (of_nat (length m) :: 16 word)) []) m bs"
    by (simp add: unat_len16 [OF n])
  have M: "decodes ?M m (message_bytes (length m) bs)"
    unfolding message_bytes_def
    by (rule decodes_bnd decodes_array_length [OF n] ps' decodes_return)+
  have ib: "in_bounds ?dec" using k by (simp add: in_bounds_def)
  have rem: "remaining ?dec = take k (message_bytes (length m) bs @ [])"
    using d by (simp add: remaining_def)
  have "decode_plugin_message d k = bnd (?M ?dec) (\<lambda>(result, dec). Inr result)"
    by (simp add: decode_plugin_message_def bnd_def split: sum.splits)
  with decodesD [OF M ib rem] show ?thesis by (simp add: bnd_def)
qed

lemma decode_encoded_message:
  assumes "valid_message m" "k \<le> length d" "take k d = take k (encode_plugin_message m)"
  shows "decode_plugin_message d k =
     (if length (encode_plugin_message m) \<le> k then Inr m else Inl insufficient)"
proof -
  from assms(1) have "decodes (decode_plugins (length m) []) m (encode_plugins m [])"
    using decodes_plugins [of m "[]"] by (simp add: valid_message_def)
  moreover from assms(1) have "length m \<le> 65535" by (simp add: valid_message_def)
  ultimately show ?thesis
    using assms(2,3) unfolding encode_plugin_message_bytes
    by (rule decode_plugin_message_bytes)
qed

subsection \<open>Every read stays below the supplied length\<close>

lemma reads_in_boundsI:
  assumes "\<And>dec. in_bounds dec \<Longrightarrow>
     R dec = Inl insufficient \<or> (\<exists>x dec'. R dec = Inr (x, dec') \<and> in_bounds dec')"
  shows "reads_in_bounds R"
  unfolding reads_in_bounds_def using assms by (fastforce split: sum.splits)

lemma reads_in_boundsD:
  assumes "reads_in_bounds R" "in_bounds dec"
  shows "R dec = Inl insufficient \<or> (\<exists>x dec'. R dec = Inr (x, dec') \<and> in_bounds dec')"
  using assms unfolding reads_in_bounds_def by (fastforce split: sum.splits)

lemma in_bounds_pos:
  "in_bounds dec \<Longrightarrow> n \<le> length (remaining dec) \<Longrightarrow> in_bounds (dec\<lparr>pos := pos dec + n\<rparr>)"
  using in_bounds_advance [of dec n] by (simp add: advance_def)

lemma safe_return: "reads_in_bounds (\<lambda>dec. Inr (x, dec))"
  by (rule reads_in_boundsI) simp

lemma safe_bnd:
  assumes "reads_in_bounds R1" "\<And>a. reads_in_bounds (g a)"
  shows "reads_in_bounds (\<lambda>dec. bnd (R1 dec) (case_prod g))"
proof (rule reads_in_boundsI)
  fix dec assume "in_bounds dec"
  from reads_in_boundsD [OF assms(1) this]
  show "bnd (R1 dec) (case_prod g) = Inl insufficient
      \<or> (\<exists>x dec'. bnd (R1 dec) (case_prod g) = Inr (x, dec') \<and> in_bounds dec')"
  proof
    assume "R1 dec = Inl insufficient"
    then show ?thesis by (simp add: bnd_def)
  next
    assume "\<exists>x dec'. R1 dec = Inr (x, dec') \<and> in_bounds dec'"
    then obtain a dec' where r: "R1 dec = Inr (a, dec')" and ib: "in_bounds dec'" by blast
    from reads_in_boundsD [OF assms(2) ib, of a] r show ?thesis by (simp add: bnd_def)
  qed
qed

lemma safe_if:
  assumes "reads_in_bounds A" "reads_in_bounds B"
  shows "reads_in_bounds (\<lambda>dec. if c then A dec else B dec)"
  using assms by (cases c) simp_all

lemma safe_bool: "reads_in_bounds read_bool"
proof (rule reads_in_boundsI)
  fix dec assume ib: "in_bounds dec"
  show "read_bool dec = Inl insufficient
      \<or> (\<exists>x dec'. read_bool dec = Inr (x, dec') \<and> in_bounds dec')"
  proof (cases "1 \<le> length (remaining dec)")
    case False
    with ib show ?thesis by (simp add: read_bool_def check_remaining_eq bnd_simps)
  next
    case True
    then have "remaining dec \<noteq> []" by auto
    with True ib in_bounds_pos [OF ib True] show ?thesis
      by (simp add: read_bool_def check_remaining_eq byte_at_simps bnd_simps)
  qed
qed

lemma safe_int32: "reads_in_bounds read_int32"
proof (rule reads_in_boundsI)
  fix dec assume ib: "in_bounds dec"
  show "read_int32 dec = Inl insufficient
      \<or> (\<exists>x dec'. read_int32 dec = Inr (x, dec') \<and> in_bounds dec')"
  proof (cases "4 \<le> length (remaining dec)")
    case False
    with ib show ?thesis by (simp add: read_int32_def check_remaining_eq bnd_simps)
  next
    case True
    then have "remaining dec \<noteq> []" by auto
    with True ib in_bounds_pos [OF ib True] show ?thesis
      by (simp add: read_int32_def check_remaining_eq byte_at_simps bnd_simps)
  qed
qed

lemma safe_float32: "reads_in_bounds read_float32"
  unfolding read_float32_def [abs_def]
  by (rule safe_bnd safe_int32 safe_return)+

lemma safe_int64: "reads_in_bounds read_int64"
proof (rule reads_in_boundsI)
  fix dec assume ib: "in_bounds dec"
  show "read_int64 dec = Inl insufficient
      \<or> (\<exists>x dec'. read_int64 dec = Inr (x, dec') \<and> in_bounds dec')"
  proof (cases "8 \<le> length (remaining dec)")
    case False
    with ib show ?thesis by (simp add: read_int64_def check_remaining_eq bnd_simps)
  next
    case True
    then have "remaining dec \<noteq> []" by auto
    with True ib in_bounds_pos [OF ib True] show ?thesis
      by (simp add: read_int64_def check_remaining_eq byte_at_simps bnd_simps)
  qed
qed

lemma safe_array_length: "reads_in_bounds read_array_length"
proof (rule reads_in_boundsI)
  fix dec assume ib: "in_bounds dec"
  show "read_array_length dec = Inl insufficient
      \<or> (\<exists>x dec'. read_array_length dec = Inr (x, dec') \<and> in_bounds dec')"
  proof (cases "2 \<le> length (remaining dec)")
    case False
    with ib show ?thesis by (simp add: read_array_length_def check_remaining_eq bnd_simps)
  next
    case True
    then have "remaining dec \<noteq> []" by auto
    with True ib in_bounds_pos [OF ib True] show ?thesis
      by (simp add: read_array_length_def check_remaining_eq byte_at_simps bnd_simps)
  qed
qed

lemma safe_string: "reads_in_bounds read_string"
proof (rule reads_in_boundsI)
  fix dec assume ib: "in_bounds dec"
  show "read_string dec = Inl insufficient
      \<or> (\<exists>x dec'. read_string dec = Inr (x, dec') \<and> in_bounds dec')"
  proof (cases "2 \<le> length (remaining dec)")
    case False
    with ib show ?thesis by (simp add: read_string_def check_remaining_eq bnd_simps)
  next
    case True
    define len where "len = unat ((ucast (remaining dec ! 0) :: 16 word)
        OR push_bit 8 (ucast (remaining dec ! 1)))"
    from ib True have ib2: "in_bounds (advance dec 2)" by (rule in_bounds_advance)
    from True have ne: "remaining dec \<noteq> []" by auto
    have hdr: "read_string dec =
        bnd (check_remaining (advance dec 2) len) (\<lambda>_.
        bnd (bytes_at (advance dec 2) (pos (advance dec 2)) len) (\<lambda>bs.
        Inr (map char_of_byte bs, advance (advance dec 2) len)))"
      using ib True ne
      by (simp add: read_string_def check_remaining_eq byte_at_simps bnd_simps advance_def
          Let_def len_def)
    show ?thesis
    proof (cases "len \<le> length (remaining (advance dec 2))")
      case False
      with ib2 show ?thesis by (simp add: hdr check_remaining_eq bnd_simps)
    next
      case le: True
      with ib2 bytes_at_remaining [OF ib2 le] in_bounds_advance [OF ib2 le] show ?thesis
        by (simp add: hdr check_remaining_eq bnd_simps)
    qed
  qed
qed

lemma safe_strings: "reads_in_bounds (decode_strings n tmp)"
proof (induction n arbitrary: tmp)
  case 0
  show ?case using safe_return [of tmp] by (simp add: reads_in_bounds_def)
next
  case (Suc n)
  show ?case unfolding decode_strings_Suc by (rule safe_bnd safe_string Suc.IH)+
qed

lemma safe_parameter: "reads_in_bounds decode_parameter"
  unfolding decode_parameter_def [abs_def]
  by (rule safe_bnd safe_if safe_string safe_float32 safe_int32 safe_int64 safe_bool
      safe_array_length safe_strings safe_return)+

lemma safe_parameters: "reads_in_bounds (decode_parameters n params)"
proof (induction n arbitrary: params)
  case 0
  show ?case using safe_return [of params] by (simp add: reads_in_bounds_def)
next
  case (Suc n)
  show ?case unfolding decode_parameters_Suc by (rule safe_bnd safe_parameter Suc.IH)+
qed

lemma safe_plugin: "reads_in_bounds decode_plugin"
  unfolding decode_plugin_def [abs_def]
  by (rule safe_bnd safe_string safe_array_length safe_parameters safe_return)+

lemma safe_plugins: "reads_in_bounds (decode_plugins n result)"
proof (induction n arbitrary: result)
  case 0
  show ?case using safe_return [of result] by (simp add: reads_in_bounds_def)
next
  case (Suc n)
  show ?case unfolding decode_plugins_Suc by (rule safe_bnd safe_plugin Suc.IH)+
qed

lemma decode_never_reads_past_length:
  assumes "s \<le> length d"
  shows "decode_plugin_message d s = Inl insufficient \<or> (\<exists>m. decode_plugin_message d s = Inr m)"
proof -
  let ?dec = "\<lparr>data = d, size_dec = s, pos = 0\<rparr>"
  let ?M = "\<lambda>dec. bnd (read_array_length dec) (\<lambda>(len, dec).
      bnd (decode_plugins (unat len) [] dec) (\<lambda>(result, dec). Inr (result, dec)))"
  have "reads_in_bounds ?M"
    by (rule safe_bnd safe_array_length safe_plugins safe_return)+
  moreover have "in_bounds ?dec" using assms by (simp add: in_bounds_def)
  ultimately have "?M ?dec = Inl insufficient \<or> (\<exists>x dec'. ?M ?dec = Inr (x, dec') \<and> in_bounds dec')"
    by (rule reads_in_boundsD)
  moreover have "decode_plugin_message d s = bnd (?M ?dec) (\<lambda>(result, dec). Inr result)"
    by (simp add: decode_plugin_message_def bnd_def split: sum.splits)
  ultimately show ?thesis by (auto simp: bnd_def)
qed

subsection \<open>Reading a whole buffer\<close>

lemma roundtrip_vec:
  "valid_message m \<Longrightarrow> decode_plugin_message_vec (encode_plugin_message m) = Inr m"
  using decode_encoded_message [of m "length (encode_plugin_message m)" "encode_plugin_message m"]
  by (simp add: decode_plugin_message_vec_def)

lemma valid_with_optionals:
  assumes "valid_plugin P" "valid_parameter p"
    and "case iv of None \<Rightarrow> True | Some xs \<Rightarrow> length xs \<le> 65535 \<and> list_all valid_string xs"
    and "case src of None \<Rightarrow> True | Some s \<Rightarrow> valid_string s"
  shows "valid_message (with_optionals P p iv src)"
  using assms
  by (simp add: valid_message_def valid_plugin_def valid_parameter_def with_optionals_def)

lemma read_whole:
  assumes "decodes R x bs"
  shows "R \<lparr>data = bs, size_dec = length bs, pos = 0\<rparr>
         = Inr (x, \<lparr>data = bs, size_dec = length bs, pos = length bs\<rparr>)"
proof -
  let ?dec = "\<lparr>data = bs, size_dec = length bs, pos = 0\<rparr>"
  have "in_bounds ?dec" by (simp add: in_bounds_def)
  moreover have "remaining ?dec = take (length bs) (bs @ [])" by (simp add: remaining_def)
  ultimately show ?thesis using decodesD [OF assms, of ?dec "length bs" "[]"]
    by (simp add: advance_def)
qed

subsection \<open>Messages with arbitrary flag bytes\<close>

lemma decodes_parameters_image:
  "list_all2 flags_agree fl ps \<Longrightarrow> list_all valid_parameter ps \<Longrightarrow>
   decodes (decode_parameters (length ps) params) (params @ ps) (parameters_image fl ps)"
proof (induction fl ps arbitrary: params rule: list_all2_induct)
  case Nil
  show ?case using decodes_return [of params] by (simp add: decodes_def)
next
  case (Cons f fl p ps)
  obtain c w fv fs where f: "f = (c, w, fv, fs)" by (cases f) auto
  from Cons.prems have p: "valid_parameter p" and ps: "list_all valid_parameter ps"
    by simp_all
  from Cons.hyps(1) have "decodes decode_parameter p (parameter_image f p)"
    unfolding f parameter_image_def prod.case
    by (intro decodes_parameter p) (simp_all add: flags_agree_def f)
  moreover have "decodes (decode_parameters (length ps) (params @ [p])) (params @ p # ps)
          (parameters_image fl ps)"
    using Cons.IH [OF ps, of "params @ [p]"] by simp
  ultimately have "decodes (\<lambda>dec. bnd (decode_parameter dec)
                (case_prod (\<lambda>elem1 dec. decode_parameters (length ps) (params @ [elem1]) dec)))
              (params @ p # ps) (parameter_image f p @ parameters_image fl ps)"
    by (rule decodes_bnd)
  then show ?case by (simp add: decode_parameters_Suc)
qed

lemma decodes_plugin_image:
  assumes "valid_plugin P" "list_all2 flags_agree fl (Parameters P)"
  shows "decodes decode_plugin P (plugin_image fl P)"
proof -
  from assms have "decodes (decode_parameters (length (Parameters P)) []) (Parameters P)
      (parameters_image fl (Parameters P))"
    using decodes_parameters_image [of fl "Parameters P" "[]"] by (simp add: valid_plugin_def)
  with assms(1) show ?thesis
    unfolding plugin_image_def
    by (intro decodes_plugin_bytes) (simp_all add: valid_plugin_def)
qed

lemma decodes_plugins_image:
  "list_all2 (\<lambda>fl P. list_all2 flags_agree fl (Parameters P)) fls Ps \<Longrightarrow>
   list_all valid_plugin Ps \<Longrightarrow>
   decodes (decode_plugins (length Ps) result) (result @ Ps) (plugins_image fls Ps)"
proof (induction fls Ps arbitrary: result rule: list_all2_induct)
  case Nil
  show ?case using decodes_return [of result] by (simp add: decodes_def)
next
  case (Cons fl fls P Ps)
  from Cons.prems have P: "valid_plugin P" and Ps: "list_all valid_plugin Ps"
    by simp_all
  have "decodes (decode_plugins (length Ps) (result @ [P])) (result @ P # Ps)
          (plugins_image fls Ps)"
    using Cons.IH [OF Ps, of "result @ [P]"] by simp
  with decodes_plugin_image [OF P Cons.hyps(1)]
  have "decodes (\<lambda>dec. bnd (decode_plugin dec)
                (case_prod (\<lambda>elem0 dec. decode_plugins (length Ps) (result @ [elem0]) dec)))
              (result @ P # Ps) (plugin_image fl P @ plugins_image fls Ps)"
    by (rule decodes_bnd)
  then show ?case by (simp add: decode_plugins_Suc)
qed

lemma parameters_image_encoder:
  "parameters_image (map encoder_flags ps) ps = encode_parameters ps []"
proof (induction ps)
  case Nil
  show ?case by simp
next
  case (Cons p ps)
  then show ?case
    using encode_parameters_append [of ps "encode_parameter p []"]
      encode_parameter_bytes [of p "[]"]
    by (simp add: parameter_image_def encoder_flags_def)
qed

lemma plugins_image_encoder:
  "plugins_image (map (\<lambda>P. map encoder_flags (Parameters P)) Ps) Ps = encode_plugins Ps []"
proof (induction Ps)
  case Nil
  show ?case by simp
next
  case (Cons P Ps)
  then show ?case
    using encode_plugins_append [of Ps "encode_plugin P []"] encode_plugin_bytes [of P "[]"]
    by (simp add: plugin_image_def parameters_image_encoder)
qed

lemma message_image_encoder:
  "message_image (map (\<lambda>P. map encoder_flags (Parameters P)) m) m = encode_plugin_message m"
  by (simp add: message_image_def plugins_image_encoder encode_plugin_message_bytes)

lemma encoder_flags_agree: "flags_agree (encoder_flags p) p"
  by (simp add: flags_agree_def encoder_flags_def flag_byte_def)

lemma encoder_flags_fit: "flags_fit (map (\<lambda>P. map encoder_flags (Parameters P)) m) m"
  by (simp add: flags_fit_def list_all2_map1 list_all2_same encoder_flags_agree)

lemma decode_message_image_tail:
  assumes "valid_message m" "flags_fit fls m" "k \<le> length d"
    and "take k d = take k (message_image fls m @ tail)"
  shows "decode_plugin_message d k =
     (if length (message_image fls m) \<le> k then Inr m else Inl insufficient)"
proof -
  let ?bs = "plugins_image fls m"
  let ?dec = "\<lparr>data = d, size_dec = k, pos = 0\<rparr>"
  let ?M = "\<lambda>dec. bnd (read_array_length dec) (\<lambda>(len, dec).
      bnd (decode_plugins (unat len) [] dec) (\<lambda>(result, dec). Inr (result, dec)))"
  from assms(1) have n: "length m \<le> 65535" by (simp add: valid_message_def)
  from assms(1,2) have "decodes (decode_plugins (length m) []) m ?bs"
    using decodes_plugins_image [of fls m "[]"] by (simp add: valid_message_def flags_fit_def)
  then have ps: "decodes (decode_plugins (unat (of_nat (length m) :: 16 word)) []) m ?bs"
    by (simp add: unat_len16 [OF n])
  have M: "decodes ?M m (message_image fls m)"
    unfolding message_image_def message_bytes_def
    by (rule decodes_bnd decodes_array_length [OF n] ps decodes_return)+
  have ib: "in_bounds ?dec" using assms(3) by (simp add: in_bounds_def)
  have rem: "remaining ?dec = take k (message_image fls m @ tail)"
    using assms(4) by (simp add: remaining_def)
  have "decode_plugin_message d k = bnd (?M ?dec) (\<lambda>(result, dec). Inr result)"
    by (simp add: decode_plugin_message_def bnd_def split: sum.splits)
  with decodesD [OF M ib rem] show ?thesis by (simp add: bnd_def)
qed

subsection \<open>What a successful decode has read\<close>

lemma parsesI:
  assumes "\<And>dec x dec'. in_bounds dec \<Longrightarrow> R dec = Inr (x, dec') \<Longrightarrow>
     in_bounds dec' \<and> (\<exists>bs. img x bs \<and> remaining dec = bs @ remaining dec')"
  shows "parses R img"
  using assms unfolding parses_def by blast

lemma parsesD:
  assumes "parses R img" "in_bounds dec" "R dec = Inr (x, dec')"
  shows "in_bounds dec'" and "\<exists>bs. img x bs \<and> remaining dec = bs @ remaining dec'"
  using assms unfolding parses_def by blast+

lemma parses_weaken:
  assumes "parses R img" "\<And>x bs. img x bs \<Longrightarrow> img' x bs"
  shows "parses R img'"
  using assms unfolding parses_def by blast

lemma parses_return: "parses (\<lambda>dec. Inr (x, dec)) (\<lambda>y bs. y = x \<and> bs = [])"
  by (rule parsesI) simp

lemma parses_bnd:
  assumes R1: "parses R1 img1" and R2: "\<And>a. parses (g a) (img2 a)"
  shows "parses (\<lambda>dec. bnd (R1 dec) (case_prod g))
           (\<lambda>y bs. \<exists>a bs1 bs2. img1 a bs1 \<and> img2 a y bs2 \<and> bs = bs1 @ bs2)"
proof (rule parsesI)
  fix dec y dec'
  assume ib: "in_bounds dec" and r: "bnd (R1 dec) (case_prod g) = Inr (y, dec')"
  then obtain a dec1 where r1: "R1 dec = Inr (a, dec1)" and r2: "g a dec1 = Inr (y, dec')"
    by (auto simp: bnd_def split: sum.splits)
  from parsesD [OF R1 ib r1] obtain bs1 where ib1: "in_bounds dec1" and i1: "img1 a bs1"
    and rem1: "remaining dec = bs1 @ remaining dec1" by blast
  from parsesD [OF R2 ib1 r2] obtain bs2 where ib2: "in_bounds dec'" and i2: "img2 a y bs2"
    and rem2: "remaining dec1 = bs2 @ remaining dec'" by blast
  from rem1 rem2 have "remaining dec = (bs1 @ bs2) @ remaining dec'" by simp
  with ib2 i1 i2
  show "in_bounds dec' \<and> (\<exists>bs. (\<exists>a bs1 bs2. img1 a bs1 \<and> img2 a y bs2 \<and> bs = bs1 @ bs2)
          \<and> remaining dec = bs @ remaining dec')"
    by blast
qed

lemma parses_if:
  assumes "parses A imgA" "parses B imgB"
  shows "parses (\<lambda>dec. if c then A dec else B dec) (\<lambda>y bs. if c then imgA y bs else imgB y bs)"
  using assms by (cases c) simp_all

lemma split16:
  fixes b0 b1 :: byte
  shows "[ucast ((ucast b0 :: 16 word) OR push_bit 8 (ucast b1)),
          ucast (drop_bit 8 ((ucast b0 :: 16 word) OR push_bit 8 (ucast b1)))] = [b0, b1]"
  by (simp; intro conjI; rule bit_word_eqI; auto simp: bit_simps dest: bit_imp_le_length)

lemma split32:
  fixes b0 b1 b2 b3 :: byte
  defines "W \<equiv> (ucast b0 :: 32 word) OR push_bit 8 (ucast b1) OR push_bit 16 (ucast b2)
             OR push_bit 24 (ucast b3)"
  shows "[ucast W, ucast (drop_bit 8 W), ucast (drop_bit 16 W), ucast (drop_bit 24 W)]
         = [b0, b1, b2, b3]"
  unfolding W_def
  by (simp; intro conjI; rule bit_word_eqI; auto simp: bit_simps dest: bit_imp_le_length)

lemma split64:
  fixes b0 b1 b2 b3 b4 b5 b6 b7 :: byte
  defines "W \<equiv> (ucast b0 :: 64 word) OR push_bit 8 (ucast b1) OR push_bit 16 (ucast b2)
             OR push_bit 24 (ucast b3) OR push_bit 32 (ucast b4) OR push_bit 40 (ucast b5)
             OR push_bit 48 (ucast b6) OR push_bit 56 (ucast b7)"
  shows "[ucast W, ucast (drop_bit 8 W), ucast (drop_bit 16 W), ucast (drop_bit 24 W),
          ucast (drop_bit 32 W), ucast (drop_bit 40 W), ucast (drop_bit 48 W),
          ucast (drop_bit 56 W)]
         = [b0, b1, b2, b3, b4, b5, b6, b7]"
  unfolding W_def
  by (simp; intro conjI; rule bit_word_eqI; auto simp: bit_simps dest: bit_imp_le_length)

lemma byte_of_char_of_byte: "byte_of_char (char_of_byte b) = b"
proof -
  have "(of_char (char_of (unat b)) :: nat) = unat b mod 256" by simp
  also have "\<dots> = unat b" using unsigned_less [of b, where ?'a = nat] by simp
  finally have "(of_nat (of_char (char_of (unat b)) :: nat) :: byte) = b" by simp
  moreover have "(of_char (char_of (unat b)) :: byte) = of_nat (of_char (char_of (unat b)) :: nat)"
    by (simp only: of_nat_of_char)
  ultimately show ?thesis by (simp only: byte_of_char_def char_of_byte_def)
qed

lemma unat_len16_le: "unat (w :: 16 word) \<le> 65535"
  using unsigned_less [of w, where ?'a = nat] by simp

lemma success_needs:
  assumes "in_bounds dec" "bnd (check_remaining dec n) f = Inr r"
  shows "n \<le> length (remaining dec)"
  using assms by (auto simp: check_remaining_eq bnd_def split: if_splits)

lemma parses_bool: "parses read_bool (\<lambda>v bs. \<exists>b. bs = [b] \<and> v = (b \<noteq> 0))"
proof (rule parsesI)
  fix dec v dec'
  assume ib: "in_bounds dec" and r: "read_bool dec = Inr (v, dec')"
  from r have "1 \<le> length (remaining dec)"
    unfolding read_bool_def by (rule success_needs [OF ib])
  then obtain b rest where rem: "remaining dec = b # rest"
    by (cases "remaining dec") auto
  with ib r have "v = (b \<noteq> 0)" "dec' = advance dec 1"
    by (simp_all add: read_bool_def check_remaining_eq byte_at_simps bnd_simps advance_def)
  with ib rem show "in_bounds dec' \<and> (\<exists>bs. (\<exists>b. bs = [b] \<and> v = (b \<noteq> 0))
      \<and> remaining dec = bs @ remaining dec')"
    by (simp add: in_bounds_advance remaining_advance)
qed

lemma parses_int32: "parses read_int32 (\<lambda>v bs. bs = write_int32 v [])"
proof (rule parsesI)
  fix dec v dec'
  assume ib: "in_bounds dec" and r: "read_int32 dec = Inr (v, dec')"
  from r have "4 \<le> length (remaining dec)"
    unfolding read_int32_def by (rule success_needs [OF ib])
  then obtain b0 b1 b2 b3 rest where rem: "remaining dec = b0 # b1 # b2 # b3 # rest"
    by (auto simp: numeral_eq_Suc Suc_le_length_iff)
  with ib r have v: "v = (ucast b0 :: 32 word) OR push_bit 8 (ucast b1) OR push_bit 16 (ucast b2)
             OR push_bit 24 (ucast b3)" and d: "dec' = advance dec 4"
    by (simp_all add: read_int32_def check_remaining_eq byte_at_simps bnd_simps advance_def)
  have "write_int32 v [] = [b0, b1, b2, b3]"
    unfolding v write_int32_def Let_def append_Nil by (rule split32)
  with ib rem d show "in_bounds dec' \<and> (\<exists>bs. bs = write_int32 v []
      \<and> remaining dec = bs @ remaining dec')"
    by (simp add: in_bounds_advance remaining_advance)
qed

lemma parses_float32: "parses read_float32 (\<lambda>v bs. bs = write_float32 v [])"
proof -
  have "parses (\<lambda>dec. bnd (read_int32 dec) (case_prod (\<lambda>u dec. Inr (u, dec))))
          (\<lambda>y bs. \<exists>a bs1 bs2. bs1 = write_int32 a [] \<and> (y = a \<and> bs2 = []) \<and> bs = bs1 @ bs2)"
    by (rule parses_bnd [OF parses_int32 parses_return])
  then show ?thesis
    unfolding read_float32_def [abs_def]
    by (rule parses_weaken) (auto simp: write_float32_def)
qed

lemma parses_int64: "parses read_int64 (\<lambda>v bs. bs = write_int64 v [])"
proof (rule parsesI)
  fix dec v dec'
  assume ib: "in_bounds dec" and r: "read_int64 dec = Inr (v, dec')"
  from r have "8 \<le> length (remaining dec)"
    unfolding read_int64_def by (rule success_needs [OF ib])
  then obtain b0 b1 b2 b3 b4 b5 b6 b7 rest
    where rem: "remaining dec = b0 # b1 # b2 # b3 # b4 # b5 # b6 # b7 # rest"
    by (auto simp: numeral_eq_Suc Suc_le_length_iff)
  with ib r have v: "v = (ucast b0 :: 64 word) OR push_bit 8 (ucast b1) OR push_bit 16 (ucast b2)
             OR push_bit 24 (ucast b3) OR push_bit 32 (ucast b4) OR push_bit 40 (ucast b5)
             OR push_bit 48 (ucast b6) OR push_bit 56 (ucast b7)" and d: "dec' = advance dec 8"
    by (simp_all add: read_int64_def check_remaining_eq byte_at_simps bnd_simps advance_def)
  have "write_int64 v [] = [b0, b1, b2, b3, b4, b5, b6, b7]"
    unfolding v write_int64_def Let_def append_Nil by (rule split64)
  with ib rem d show "in_bounds dec' \<and> (\<exists>bs. bs = write_int64 v []
      \<and> remaining dec = bs @ remaining dec')"
    by (simp add: in_bounds_advance remaining_advance)
qed

lemma parses_array_length:
  "parses read_array_length (\<lambda>v bs. bs = write_array_length (unat v) [])"
proof (rule parsesI)
  fix dec v dec'
  assume ib: "in_bounds dec" and r: "read_array_length dec = Inr (v, dec')"
  from r have "2 \<le> length (remaining dec)"
    unfolding read_array_length_def by (rule success_needs [OF ib])
  then obtain b0 b1 rest where rem: "remaining dec = b0 # b1 # rest"
    by (auto simp: numeral_eq_Suc Suc_le_length_iff)
  with ib r have v: "v = (ucast b0 :: 16 word) OR push_bit 8 (ucast b1)"
    and d: "dec' = advance dec 2"
    by (simp_all add: read_array_length_def check_remaining_eq byte_at_simps bnd_simps
        advance_def)
  have "write_array_length (unat v) [] = [b0, b1]"
    using split16 [of b0 b1] by (simp add: v write_array_length_def write_byte_def Let_def)
  with ib rem d show "in_bounds dec' \<and> (\<exists>bs. bs = write_array_length (unat v) []
      \<and> remaining dec = bs @ remaining dec')"
    by (simp add: in_bounds_advance remaining_advance)
qed

lemma parses_string: "parses read_string (\<lambda>s bs. valid_string s \<and> bs = write_string s [])"
proof (rule parsesI)
  fix dec s dec'
  assume ib: "in_bounds dec" and r: "read_string dec = Inr (s, dec')"
  from r have "2 \<le> length (remaining dec)"
    unfolding read_string_def by (rule success_needs [OF ib])
  then obtain b0 b1 rest where rem: "remaining dec = b0 # b1 # rest"
    by (auto simp: numeral_eq_Suc Suc_le_length_iff)
  define len where "len = (ucast b0 :: 16 word) OR push_bit 8 (ucast b1)"
  from ib rem have ib2: "in_bounds (advance dec 2)" by (simp add: in_bounds_advance)
  from rem have rem2: "remaining (advance dec 2) = rest" by (simp add: remaining_advance)
  have hdr: "read_string dec =
      bnd (check_remaining (advance dec 2) (unat len)) (\<lambda>_.
      bnd (bytes_at (advance dec 2) (pos (advance dec 2)) (unat len)) (\<lambda>bs.
      Inr (map char_of_byte bs, advance (advance dec 2) (unat len))))"
    using ib rem
    by (simp add: read_string_def check_remaining_eq byte_at_simps bnd_simps advance_def
        Let_def len_def)
  from r have le: "unat len \<le> length (remaining (advance dec 2))"
    unfolding hdr by (rule success_needs [OF ib2])
  from r ib2 le bytes_at_remaining [OF ib2 le]
  have s: "s = map char_of_byte (take (unat len) rest)"
    and d: "dec' = advance (advance dec 2) (unat len)"
    by (simp_all add: hdr check_remaining_eq bnd_simps rem2)
  from le have n: "length s = unat len" by (simp add: s rem2)
  then have valid: "valid_string s" using unat_len16_le [of len] by (simp add: valid_string_def)
  have "map byte_of_char s = take (unat len) rest"
    by (simp add: s comp_def byte_of_char_of_byte)
  moreover have "[ucast len, ucast (drop_bit 8 len)] = [b0, b1]"
    unfolding len_def by (rule split16)
  ultimately have "write_string s [] = b0 # b1 # take (unat len) rest"
    by (simp add: write_string_def Let_def n)
  moreover have "remaining dec' = drop (unat len) rest"
    by (simp add: d remaining_advance rem)
  moreover have "in_bounds dec'" unfolding d using ib2 le by (rule in_bounds_advance)
  ultimately show "in_bounds dec' \<and> (\<exists>bs. (valid_string s \<and> bs = write_string s [])
      \<and> remaining dec = bs @ remaining dec')"
    using valid rem by simp
qed

lemma parses_strings:
  "parses (decode_strings n tmp)
     (\<lambda>ys bs. \<exists>xs. ys = tmp @ xs \<and> length xs = n \<and> list_all valid_string xs
        \<and> bs = encode_strings xs [])"
proof (induction n arbitrary: tmp)
  case 0
  show ?case using parses_return [of tmp] by (simp add: parses_def)
next
  case (Suc n)
  show ?case
    unfolding decode_strings_Suc
  proof (rule parses_weaken [OF parses_bnd [OF parses_string Suc.IH]])
    fix ys bs
    assume "\<exists>a bs1 bs2. (valid_string a \<and> bs1 = write_string a []) \<and>
       (\<exists>xs. ys = (tmp @ [a]) @ xs \<and> length xs = n \<and> list_all valid_string xs
          \<and> bs2 = encode_strings xs []) \<and> bs = bs1 @ bs2"
    then obtain a xs where "valid_string a" "ys = tmp @ a # xs" "length xs = n"
      "list_all valid_string xs" "bs = write_string a [] @ encode_strings xs []"
      by auto
    then have "ys = tmp @ (a # xs) \<and> length (a # xs) = Suc n \<and> list_all valid_string (a # xs)
        \<and> bs = encode_strings (a # xs) []"
      using encode_strings_append [of xs "write_string a []"] by simp
    then show "\<exists>xs. ys = tmp @ xs \<and> length xs = Suc n \<and> list_all valid_string xs
        \<and> bs = encode_strings xs []"
      by blast
  qed
qed

lemma parses_parameter:
  "parses decode_parameter
     (\<lambda>p bs. valid_parameter p \<and> (\<exists>f. flags_agree f p \<and> bs = parameter_image f p))"
  unfolding decode_parameter_def [abs_def]
  apply (rule parses_weaken)
   apply (rule parses_bnd parses_if parses_string parses_float32 parses_int32 parses_int64
      parses_bool parses_array_length parses_strings parses_return)+
  apply (clarsimp simp: valid_parameter_def flags_agree_def parameter_image_def
      parameter_bytes_def values_bytes_def source_bytes_def unat_len16_le
      split: if_splits)
   apply (auto simp: unat_len16_le)
  done

lemma parses_parameters:
  "parses (decode_parameters n params)
     (\<lambda>ys bs. \<exists>ps fl. ys = params @ ps \<and> length ps = n \<and> list_all valid_parameter ps
        \<and> list_all2 flags_agree fl ps \<and> bs = parameters_image fl ps)"
proof (induction n arbitrary: params)
  case 0
  show ?case using parses_return [of params] by (simp add: parses_def)
next
  case (Suc n)
  show ?case
    unfolding decode_parameters_Suc
  proof (rule parses_weaken [OF parses_bnd [OF parses_parameter Suc.IH]])
    fix ys bs
    assume "\<exists>a bs1 bs2. (valid_parameter a \<and> (\<exists>f. flags_agree f a \<and> bs1 = parameter_image f a)) \<and>
       (\<exists>ps fl. ys = (params @ [a]) @ ps \<and> length ps = n \<and> list_all valid_parameter ps
          \<and> list_all2 flags_agree fl ps \<and> bs2 = parameters_image fl ps) \<and> bs = bs1 @ bs2"
    then obtain a f ps fl where "valid_parameter a" "flags_agree f a" "ys = params @ a # ps"
      "length ps = n" "list_all valid_parameter ps" "list_all2 flags_agree fl ps"
      "bs = parameter_image f a @ parameters_image fl ps"
      by auto
    then have "ys = params @ (a # ps) \<and> length (a # ps) = Suc n
        \<and> list_all valid_parameter (a # ps) \<and> list_all2 flags_agree (f # fl) (a # ps)
        \<and> bs = parameters_image (f # fl) (a # ps)"
      by simp
    then show "\<exists>ps fl. ys = params @ ps \<and> length ps = Suc n \<and> list_all valid_parameter ps
        \<and> list_all2 flags_agree fl ps \<and> bs = parameters_image fl ps"
      by blast
  qed
qed

lemma parses_plugin:
  "parses decode_plugin
     (\<lambda>P bs. valid_plugin P
        \<and> (\<exists>fl. list_all2 flags_agree fl (Parameters P) \<and> bs = plugin_image fl P))"
  unfolding decode_plugin_def [abs_def]
  apply (rule parses_weaken)
   apply (rule parses_bnd parses_string parses_array_length parses_parameters parses_return)+
  apply (clarsimp simp: valid_plugin_def plugin_image_def plugin_bytes_def unat_len16_le)
  apply (auto simp: unat_len16_le)
  done

lemma parses_plugins:
  "parses (decode_plugins n result)
     (\<lambda>ys bs. \<exists>Ps fls. ys = result @ Ps \<and> length Ps = n \<and> list_all valid_plugin Ps
        \<and> list_all2 (\<lambda>fl P. list_all2 flags_agree fl (Parameters P)) fls Ps
        \<and> bs = plugins_image fls Ps)"
proof (induction n arbitrary: result)
  case 0
  show ?case using parses_return [of result] by (simp add: parses_def)
next
  case (Suc n)
  show ?case
    unfolding decode_plugins_Suc
  proof (rule parses_weaken [OF parses_bnd [OF parses_plugin Suc.IH]])
    fix ys bs
    assume "\<exists>a bs1 bs2. (valid_plugin a
          \<and> (\<exists>fl. list_all2 flags_agree fl (Parameters a) \<and> bs1 = plugin_image fl a)) \<and>
       (\<exists>Ps fls. ys = (result @ [a]) @ Ps \<and> length Ps = n \<and> list_all valid_plugin Ps
          \<and> list_all2 (\<lambda>fl P. list_all2 flags_agree fl (Parameters P)) fls Ps
          \<and> bs2 = plugins_image fls Ps) \<and> bs = bs1 @ bs2"
    then obtain a fl Ps fls where "valid_plugin a" "list_all2 flags_agree fl (Parameters a)"
      "ys = result @ a # Ps" "length Ps = n" "list_all valid_plugin Ps"
      "list_all2 (\<lambda>fl P. list_all2 flags_agree fl (Parameters P)) fls Ps"
      "bs = plugin_image fl a @ plugins_image fls Ps"
      by auto
    then have "ys = result @ (a # Ps) \<and> length (a # Ps) = Suc n
        \<and> list_all valid_plugin (a # Ps)
        \<and> list_all2 (\<lambda>fl P. list_all2 flags_agree fl (Parameters P)) (fl # fls) (a # Ps)
        \<and> bs = plugins_image (fl # fls) (a # Ps)"
      by simp
    then show "\<exists>Ps fls. ys = result @ Ps \<and> length Ps = Suc n \<and> list_all valid_plugin Ps
        \<and> list_all2 (\<lambda>fl P. list_all2 flags_agree fl (Parameters P)) fls Ps
        \<and> bs = plugins_image fls Ps"
      by blast
  qed
qed

lemma decoded_is_image:
  assumes "s \<le> length d" "decode_plugin_message d s = Inr m"
  shows "valid_message m \<and> (\<exists>fls tail. flags_fit fls m \<and> take s d = message_image fls m @ tail)"
proof -
  let ?dec = "\<lparr>data = d, size_dec = s, pos = 0\<rparr>"
  let ?M = "\<lambda>dec. bnd (read_array_length dec) (\<lambda>(len, dec).
      bnd (decode_plugins (unat len) [] dec) (\<lambda>(result, dec). Inr (result, dec)))"
  have M: "parses ?M (\<lambda>m bs. valid_message m \<and> (\<exists>fls. flags_fit fls m \<and> bs = message_image fls m))"
    apply (rule parses_weaken)
     apply (rule parses_bnd parses_array_length parses_plugins parses_return)+
    apply (clarsimp simp: valid_message_def flags_fit_def message_image_def message_bytes_def
        unat_len16_le)
    apply (auto simp: unat_len16_le)
    done
  have ib: "in_bounds ?dec" using assms(1) by (simp add: in_bounds_def)
  have rem: "remaining ?dec = take s d" by (simp add: remaining_def)
  have "decode_plugin_message d s = bnd (?M ?dec) (\<lambda>(result, dec). Inr result)"
    by (simp add: decode_plugin_message_def bnd_def split: sum.splits)
  with assms(2) obtain dec' where "?M ?dec = Inr (m, dec')"
    by (auto simp: bnd_def split: sum.splits)
  from parsesD(2) [OF M ib this] rem show ?thesis by auto
qed

section \<open>Boundary layer lemmas\<close>

lemma plugin_decode_valid_handle:
  assumes "plugin_decode d len st = Inr ((h, e), st')" "h \<noteq> 0"
  shows "valid_plugin_handle st' h \<and> e = None"
  using assms
  by (auto simp: plugin_decode_def valid_plugin_handle_def Let_def
      split: option.splits if_splits sum.splits failure.splits)

lemma message_decode_valid_handle:
  assumes "message_decode d len st = Inr ((h, e), st')" "h \<noteq> 0"
  shows "valid_message_handle st' h \<and> e = None"
  using assms
  by (auto simp: message_decode_def valid_message_handle_def Let_def
      split: option.splits if_splits sum.splits failure.splits)

lemma plugin_get_parameter_valid_handle:
  assumes "plugin_get_parameter h i st = Inr (ph, st')" "ph \<noteq> 0" "valid_plugin_handle st h"
  shows "valid_parameter_handle st' ph \<and> valid_plugin_handle st' h"
  using assms
  by (auto simp: plugin_get_parameter_def valid_plugin_handle_def valid_parameter_handle_def
      deref_param_def first_plugin_def bnd_def Let_def
      split: option.splits if_splits sum.splits list.splits)

lemma first_plugin_valid:
  "valid_plugin_handle st h \<Longrightarrow> \<exists>p. first_plugin h st = Inr p"
  by (auto simp: valid_plugin_handle_def first_plugin_def split: option.splits list.splits)

lemma freed_plugin_gone:
  assumes "h \<noteq> 0" "plugin_free h st = Inr st'"
  shows "plugin_objs st' h = None"
  using assms by (auto simp: plugin_free_def split: option.splits)

lemma freed_first_plugin:
  assumes "h \<noteq> 0" "plugin_free h st = Inr st'"
  shows "first_plugin h st' = Inl DanglingHandle"
  using freed_plugin_gone [OF assms] by (simp add: first_plugin_def)

lemma plugin_encode_live:
  assumes "h \<noteq> 0" "plugin_objs st h = Some impl"
  shows "plugin_encode h st
         = Inr ((length (encode_plugin_message (plugins impl)),
                 Some (encode_plugin_message (plugins impl)), None), plugin_encoded h impl st)"
  using assms by (simp add: plugin_encode_def plugin_encoded_def Let_def)

lemma plugin_encoded_frame:
  assumes "plugin_objs st h = Some impl"
  shows "map_option plugins (plugin_objs (plugin_encoded h impl st) h')
           = map_option plugins (plugin_objs st h')"
    and "first_plugin h' (plugin_encoded h impl st) = first_plugin h' st"
    and "parameter_objs (plugin_encoded h impl st) = parameter_objs st"
    and "message_objs (plugin_encoded h impl st) = message_objs st"
    and "next_addr (plugin_encoded h impl st) = next_addr st"
    and "deref_param ph (plugin_encoded h impl st) = deref_param ph st"
proof -
  show 1: "map_option plugins (plugin_objs (plugin_encoded h impl st) h')
           = map_option plugins (plugin_objs st h')"
    using assms by (simp add: plugin_encoded_def)
  show 2: "first_plugin h' (plugin_encoded h impl st) = first_plugin h' st" for h'
    using assms by (simp add: plugin_encoded_def first_plugin_def)
  show 3: "parameter_objs (plugin_encoded h impl st) = parameter_objs st"
    by (simp add: plugin_encoded_def)
  show "message_objs (plugin_encoded h impl st) = message_objs st"
    by (simp add: plugin_encoded_def)
  show "next_addr (plugin_encoded h impl st) = next_addr st"
    by (simp add: plugin_encoded_def)
  show "deref_param ph (plugin_encoded h impl st) = deref_param ph st"
    by (simp add: deref_param_def 2 3 split: option.splits prod.splits)
qed

lemma plugin_encoded_again:
  assumes "h \<noteq> 0" "plugin_objs st h = Some impl"
  shows "plugin_encode h (plugin_encoded h impl st)
         = Inr ((length (encode_plugin_message (plugins impl)),
                 Some (encode_plugin_message (plugins impl)), None), plugin_encoded h impl st)"
  using assms by (simp add: plugin_encode_def plugin_encoded_def Let_def)

lemma message_encode_live:
  assumes "h \<noteq> 0" "message_objs st h = Some impl"
  shows "message_encode h st
         = Inr ((length (encode_plugin_message (items impl)),
                 Some (encode_plugin_message (items impl)), None), message_encoded h impl st)"
    and "message_encode h (message_encoded h impl st)
         = Inr ((length (encode_plugin_message (items impl)),
                 Some (encode_plugin_message (items impl)), None), message_encoded h impl st)"
    and "map_option items (message_objs (message_encoded h impl st) h')
         = map_option items (message_objs st h')"
  using assms by (simp_all add: message_encode_def message_encoded_def Let_def)

lemma plugin_decode_defined:
  assumes "len \<le> length bytes"
  shows "\<exists>r. plugin_decode (Some bytes) len st = Inr r"
  using decode_never_reads_past_length [OF assms]
  by (auto simp: plugin_decode_def insufficient_def Let_def)

lemma message_decode_defined:
  assumes "len \<le> length bytes"
  shows "\<exists>r. message_decode (Some bytes) len st = Inr r"
  using decode_never_reads_past_length [OF assms]
  by (auto simp: message_decode_def insufficient_def Let_def)

section \<open>Round trip\<close>

text \<open>
  C1. For every Message within the 16-bit limits, decoding the bytes that
  \<open>encode_plugin_message\<close> produces yields the original Message: every field of every
  plugin and parameter, the presence and content of both optional fields, and the order
  of every sequence. The decoder is given the buffer and its length, as the pointer
  overload and the vector overload do.
\<close>

theorem roundtrip_message:
  assumes "valid_message m"
  shows "decode_plugin_message (encode_plugin_message m) (length (encode_plugin_message m)) = Inr m
       \<and> decode_plugin_message_vec (encode_plugin_message m) = Inr m"
  using decode_encoded_message [of m "length (encode_plugin_message m)" "encode_plugin_message m"]
    assms
  by (simp add: decode_plugin_message_vec_def)

theorem roundtrip_message_witness:
  "valid_message [sample_plugin, sample_plugin\<lparr>Parameters := [sample_parameter]\<rparr>]
   \<and> decode_plugin_message_vec
         (encode_plugin_message [sample_plugin, sample_plugin\<lparr>Parameters := [sample_parameter]\<rparr>])
       = Inr [sample_plugin, sample_plugin\<lparr>Parameters := [sample_parameter]\<rparr>]"
proof -
  have v: "valid_message [sample_plugin, sample_plugin\<lparr>Parameters := [sample_parameter]\<rparr>]"
    by (simp add: valid_message_def valid_plugin_def valid_parameter_def valid_string_def
        sample_plugin_def sample_parameter_def)
  from roundtrip_message [OF v] v show ?thesis by simp
qed


text \<open>
  C2. Let \<open>m\<close> be a Message within the limits and \<open>N\<close> the length of its encoding (at least
  2, whatever \<open>m\<close> holds). After removing \<open>r\<close> trailing bytes, \<open>1 \<le> r \<le> N - 1\<close>, the
  decoder throws the runtime error "insufficient data for decode", both when it is given
  the shortened buffer and when it is given the full buffer with the shorter length. The
  result is that error and not \<open>ReadPastLength\<close>, which any read of \<open>data[i]\<close> at
  \<open>i \<ge> size\<close> would have produced: no read reaches the supplied length.
\<close>

theorem truncated_prefix_fails:
  assumes "valid_message m"
    and "1 \<le> r" and "r \<le> length (encode_plugin_message m) - 1"
  shows "decode_plugin_message (take (length (encode_plugin_message m) - r) (encode_plugin_message m))
           (length (encode_plugin_message m) - r)
         = Inl (RuntimeError ''insufficient data for decode'')
       \<and> decode_plugin_message (encode_plugin_message m) (length (encode_plugin_message m) - r)
         = Inl (RuntimeError ''insufficient data for decode'')"
proof -
  let ?buf = "encode_plugin_message m"
  let ?k = "length ?buf - r"
  from assms(2,3) have k: "?k < length ?buf" by arith
  from k decode_encoded_message [OF assms(1), of ?k "take ?k ?buf"]
  have 1: "decode_plugin_message (take ?k ?buf) ?k = Inl insufficient" by simp
  from k decode_encoded_message [OF assms(1), of ?k ?buf]
  have 2: "decode_plugin_message ?buf ?k = Inl insufficient" by simp
  from 1 2 show ?thesis by (simp add: insufficient_def)
qed

theorem truncated_prefix_fails_witness:
  "valid_message [sample_plugin] \<and> (1::nat) \<le> 5
   \<and> 5 \<le> length (encode_plugin_message [sample_plugin]) - 1
   \<and> decode_plugin_message (take 22 (encode_plugin_message [sample_plugin])) 22
       = Inl (RuntimeError ''insufficient data for decode'')"
proof -
  have v: "valid_message [sample_plugin]"
    by (simp add: valid_message_def valid_plugin_def valid_string_def sample_plugin_def)
  have n: "length (encode_plugin_message [sample_plugin]) = 27"
    by (simp add: encode_plugin_message_def encode_plugin_def write_array_length_def
      write_byte_def write_string_def sample_plugin_def Let_def)
  have r: "(1::nat) \<le> 5" "5 \<le> length (encode_plugin_message [sample_plugin]) - 1"
    by (simp_all add: n)
  from truncated_prefix_fails [OF v r] v r show ?thesis by (simp add: n)
qed

section \<open>The sample scenario\<close>

text \<open>
  C8. The Message holding the single Plugin \<open>Foo\<close>/\<open>MFR1\<close>/\<open>aufx\<close>/\<open>abcd\<close> with no
  parameters encodes to 27 bytes: 2 for the plugin count, 2 plus its length for each of
  the four strings, 2 for the parameter count. Decoding these bytes gives the Message
  back.
\<close>

theorem sample_scenario:
  "encode_plugin_message [sample_plugin]
     = [1, 0, 3, 0, 70, 111, 111, 4, 0, 77, 70, 82, 49, 4, 0, 97, 117, 102, 120,
        4, 0, 97, 98, 99, 100, 0, 0]
   \<and> decode_plugin_message_vec (encode_plugin_message [sample_plugin]) = Inr [sample_plugin]
   \<and> length (encode_plugin_message [sample_plugin])
       = 2 + (2 + length (Name sample_plugin)) + (2 + length (ManufacturerID sample_plugin))
           + (2 + length (Type sample_plugin)) + (2 + length (Subtype sample_plugin)) + 2
   \<and> length (encode_plugin_message [sample_plugin]) = 27"
  by code_simp

section \<open>Optional fields\<close>

text \<open>
  C6. For every Parameter within the limits, placed in a plugin within the limits, and
  for each of the four combinations of IndexedValues absent or present (as \<open>xs\<close>) and
  IndexedValuesSource absent or present (as \<open>s\<close>), decoding the encoded Message gives
  the same Message: the same combination, the sequence \<open>xs\<close> in its order, and the
  source independently of the values. The witness takes \<open>xs\<close> to be a, b, c.
\<close>

theorem optional_presence_roundtrip:
  assumes "valid_plugin P" and "valid_parameter p"
    and "length xs \<le> 65535" and "list_all valid_string xs" and "valid_string s"
  shows "list_all (\<lambda>(iv, src).
           decode_plugin_message_vec (encode_plugin_message (with_optionals P p iv src))
             = Inr (with_optionals P p iv src))
         [(None, None), (None, Some s), (Some xs, None), (Some xs, Some s)]"
  using assms by (simp add: roundtrip_vec valid_with_optionals)

theorem optional_presence_roundtrip_witness:
  "valid_plugin sample_plugin \<and> valid_parameter sample_parameter
   \<and> length [''a'', ''b'', ''c''] \<le> 65535 \<and> list_all valid_string [''a'', ''b'', ''c'']
   \<and> valid_string ''src''
   \<and> decode_plugin_message_vec (encode_plugin_message
         (with_optionals sample_plugin sample_parameter (Some [''a'', ''b'', ''c'']) None))
       = Inr (with_optionals sample_plugin sample_parameter (Some [''a'', ''b'', ''c'']) None)
   \<and> decode_plugin_message_vec (encode_plugin_message
         (with_optionals sample_plugin sample_parameter None (Some ''src'')))
       = Inr (with_optionals sample_plugin sample_parameter None (Some ''src''))"
proof -
  have h: "valid_plugin sample_plugin" "valid_parameter sample_parameter"
    "length [''a'', ''b'', ''c''] \<le> 65535" "list_all valid_string [''a'', ''b'', ''c'']"
    "valid_string ''src''"
    by (simp_all add: valid_plugin_def valid_parameter_def valid_string_def sample_plugin_def
        sample_parameter_def)
  from optional_presence_roundtrip [OF h] h show ?thesis by simp
qed

section \<open>Boundary values\<close>

text \<open>
  C7. A text of 0 bytes and a text of 65535 bytes are read back by \<open>read_string\<close> from what
  \<open>write_string\<close> wrote, and round-trip in every text field of a Message. A Message with
  no plugin, a plugin with no parameter and a present but empty IndexedValues round-trip
  to empty sequences. A negative RawFlags is read back by \<open>read_int64\<close> from the eight
  bytes \<open>write_int64\<close> wrote (least significant first), and round-trips in a Message.
\<close>

theorem boundary_values_roundtrip:
  assumes "length s = 0 \<or> length s = 65535" and "sint r < 0"
  shows "read_string \<lparr>data = write_string s [], size_dec = length (write_string s []), pos = 0\<rparr>
           = Inr (s, \<lparr>data = write_string s [], size_dec = length (write_string s []),
                      pos = 2 + length s\<rparr>)
       \<and> read_int64 \<lparr>data = write_int64 r [], size_dec = 8, pos = 0\<rparr>
           = Inr (r, \<lparr>data = write_int64 r [], size_dec = 8, pos = 8\<rparr>)
       \<and> decode_plugin_message_vec (encode_plugin_message []) = Inr []
       \<and> decode_plugin_message_vec (encode_plugin_message [text_plugin s []])
           = Inr [text_plugin s []]
       \<and> decode_plugin_message_vec (encode_plugin_message [text_plugin s [boundary_parameter s r]])
           = Inr [text_plugin s [boundary_parameter s r]]"
proof -
  from assms(1) have s: "length s \<le> 65535" by auto
  have 1: "read_string \<lparr>data = write_string s [], size_dec = length (write_string s []), pos = 0\<rparr>
           = Inr (s, \<lparr>data = write_string s [], size_dec = length (write_string s []),
                      pos = 2 + length s\<rparr>)"
    using read_whole [OF decodes_string [OF s]] by (simp add: write_string_def Let_def)
  have 2: "read_int64 \<lparr>data = write_int64 r [], size_dec = 8, pos = 0\<rparr>
           = Inr (r, \<lparr>data = write_int64 r [], size_dec = 8, pos = 8\<rparr>)"
  proof -
    have "length (write_int64 r []) = 8" by (simp add: write_int64_def)
    with read_whole [OF decodes_int64 [of r]] show ?thesis by simp
  qed
  have 3: "decode_plugin_message_vec (encode_plugin_message []) = Inr []"
    by (rule roundtrip_vec) (simp add: valid_message_def)
  have 4: "decode_plugin_message_vec (encode_plugin_message [text_plugin s []])
           = Inr [text_plugin s []]"
    using s by (intro roundtrip_vec)
      (simp add: valid_message_def valid_plugin_def valid_string_def text_plugin_def)
  have 5: "decode_plugin_message_vec (encode_plugin_message [text_plugin s [boundary_parameter s r]])
           = Inr [text_plugin s [boundary_parameter s r]]"
    using s by (intro roundtrip_vec)
      (simp add: valid_message_def valid_plugin_def valid_parameter_def valid_string_def
        text_plugin_def boundary_parameter_def)
  from 1 2 3 4 5 show ?thesis by simp
qed

theorem boundary_values_roundtrip_witness:
  "(length (replicate 65535 CHR ''x'') = 0 \<or> length (replicate 65535 CHR ''x'') = 65535)
   \<and> sint (- 2 :: 64 word) < 0
   \<and> write_int64 (- 2) [] = [0xFE, 0xFF, 0xFF, 0xFF, 0xFF, 0xFF, 0xFF, 0xFF]
   \<and> decode_plugin_message_vec (encode_plugin_message
        [text_plugin (replicate 65535 CHR ''x'') [boundary_parameter (replicate 65535 CHR ''x'') (- 2)]])
       = Inr [text_plugin (replicate 65535 CHR ''x'')
                [boundary_parameter (replicate 65535 CHR ''x'') (- 2)]]"
proof -
  have h: "length (replicate 65535 CHR ''x'') = 0 \<or> length (replicate 65535 CHR ''x'') = 65535"
    "sint (- 2 :: 64 word) < 0"
    by simp_all
  have b: "write_int64 (- 2) [] = [0xFE, 0xFF, 0xFF, 0xFF, 0xFF, 0xFF, 0xFF, 0xFF]"
    by (simp add: write_int64_def)
  from boundary_values_roundtrip [OF h] h b show ?thesis by simp
qed

section \<open>Boolean and presence bytes\<close>

text \<open>
  C9. \<open>read_bool\<close>, given at least one byte, succeeds with \<open>true\<close> exactly when the byte
  is not \<open>0x00\<close>; \<open>write_bool\<close> appends \<open>0x01\<close> or \<open>0x00\<close> only, and the encoded Message
  is the wire image with the encoder's flag bytes. For every Message within the limits,
  with any number of plugins and parameters, and every choice of the four flag bytes of
  each parameter that are non-zero exactly where the field is true or present, the wire
  image followed by any bytes decodes to that Message when the supplied length covers the
  image, and throws the runtime error when it does not. Conversely, every buffer that
  decodes to a Message begins, within the supplied length, with such an image of it: so
  in every input buffer a boolean or presence byte other than \<open>0x00\<close> is read as true.
\<close>

theorem nonzero_byte_reads_true:
  "(pos dec < size_dec dec \<and> size_dec dec \<le> length (data dec) \<longrightarrow>
      read_bool dec = Inr (data dec ! pos dec \<noteq> 0, dec\<lparr>pos := pos dec + 1\<rparr>))
   \<and> write_bool v buf = buf @ [if v then 0x01 else 0x00]
   \<and> encode_plugin_message m0
       = message_image (map (\<lambda>P. map encoder_flags (Parameters P)) m0) m0
   \<and> (valid_message m \<and> flags_fit fls m \<and> k \<le> length (message_image fls m @ tail) \<longrightarrow>
        decode_plugin_message (message_image fls m @ tail) k
          = (if length (message_image fls m) \<le> k then Inr m
             else Inl (RuntimeError ''insufficient data for decode'')))
   \<and> (s \<le> length d \<and> decode_plugin_message d s = Inr m' \<longrightarrow>
        valid_message m'
        \<and> (\<exists>fls' tail'. flags_fit fls' m' \<and> take s d = message_image fls' m' @ tail'))"
proof -
  have 1: "read_bool dec = Inr (data dec ! pos dec \<noteq> 0, dec\<lparr>pos := pos dec + 1\<rparr>)"
    if "pos dec < size_dec dec \<and> size_dec dec \<le> length (data dec)"
    using that by (simp add: read_bool_def check_remaining_def byte_at_def bnd_def)
  have 2: "write_bool v buf = buf @ [if v then 0x01 else 0x00]"
    by (simp add: write_bool_def)
  have 3: "encode_plugin_message m0
       = message_image (map (\<lambda>P. map encoder_flags (Parameters P)) m0) m0"
    by (simp add: message_image_encoder)
  have 4: "decode_plugin_message (message_image fls m @ tail) k
          = (if length (message_image fls m) \<le> k then Inr m
             else Inl (RuntimeError ''insufficient data for decode''))"
    if "valid_message m \<and> flags_fit fls m \<and> k \<le> length (message_image fls m @ tail)"
    using that decode_message_image_tail [of m fls k "message_image fls m @ tail" tail]
    by (simp add: insufficient_def)
  have 5: "valid_message m'
        \<and> (\<exists>fls' tail'. flags_fit fls' m' \<and> take s d = message_image fls' m' @ tail')"
    if "s \<le> length d \<and> decode_plugin_message d s = Inr m'"
    using that decoded_is_image [of s d m'] by simp
  from 1 2 3 4 5 show ?thesis by blast
qed

theorem nonzero_byte_reads_true_witness:
  "pos \<lparr>data = [0x02], size_dec = 1, pos = 0\<rparr> < size_dec \<lparr>data = [0x02], size_dec = 1, pos = 0\<rparr>
   \<and> size_dec \<lparr>data = [0x02], size_dec = 1, pos = 0\<rparr>
       \<le> length (data \<lparr>data = [0x02], size_dec = 1, pos = 0\<rparr>)
   \<and> read_bool \<lparr>data = [0x02], size_dec = 1, pos = 0\<rparr>
       = Inr (True, \<lparr>data = [0x02], size_dec = 1, pos = 1\<rparr>)
   \<and> valid_message lenient_message \<and> flags_fit lenient_flags lenient_message
   \<and> length (message_image lenient_flags lenient_message)
       \<le> length (message_image lenient_flags lenient_message @ [0xAB])
   \<and> decode_plugin_message (message_image lenient_flags lenient_message @ [0xAB])
        (length (message_image lenient_flags lenient_message)) = Inr lenient_message
   \<and> (\<exists>fls' tail'. flags_fit fls' lenient_message
        \<and> take (length (message_image lenient_flags lenient_message))
             (message_image lenient_flags lenient_message @ [0xAB])
           = message_image fls' lenient_message @ tail')"
proof -
  let ?dec = "\<lparr>data = [0x02 :: byte], size_dec = 1, pos = 0\<rparr>"
  let ?img = "message_image lenient_flags lenient_message"
  have b: "pos ?dec < size_dec ?dec \<and> size_dec ?dec \<le> length (data ?dec)" by simp
  have v: "valid_message lenient_message"
    by (simp add: lenient_message_def valid_message_def valid_plugin_def valid_parameter_def
        valid_string_def sample_plugin_def sample_parameter_def lenient_parameter_def)
  have f: "flags_fit lenient_flags lenient_message"
    by (simp add: lenient_message_def lenient_flags_def flags_fit_def flags_agree_def
        sample_plugin_def sample_parameter_def lenient_parameter_def)
  have k: "length ?img \<le> length (?img @ [0xAB])" by simp
  note inst = nonzero_byte_reads_true [where dec = "?dec" and m = lenient_message
      and fls = lenient_flags and k = "length ?img" and tail = "[0xAB]"
      and s = "length ?img" and d = "?img @ [0xAB]" and m' = lenient_message]
  from inst b have 1: "read_bool ?dec = Inr (True, \<lparr>data = [0x02], size_dec = 1, pos = 1\<rparr>)"
    by simp
  from inst v f k have 4: "decode_plugin_message (?img @ [0xAB]) (length ?img) = Inr lenient_message"
    by simp
  from inst k 4 have 5: "\<exists>fls' tail'. flags_fit fls' lenient_message
        \<and> take (length ?img) (?img @ [0xAB]) = message_image fls' lenient_message @ tail'"
    by blast
  from b 1 v f k 4 5 show ?thesis by blast
qed

section \<open>The boundary layer\<close>

text \<open>
  C3. The two bytes \<open>0x00 0x00\<close> are the encoding of the Message with no plugin. The
  codec decodes them to the empty sequence; \<open>message_decode\<close> and \<open>plugin_decode\<close> return
  the null handle, leave the store as it is and report "No items in message" and
  "No plugins in message".
\<close>

theorem empty_message_rejected:
  "encode_plugin_message [] = [0x00, 0x00]
   \<and> decode_plugin_message [0x00, 0x00] 2 = Inr []
   \<and> message_decode (Some [0x00, 0x00]) 2 st = Inr ((0, Some ''No items in message''), st)
   \<and> plugin_decode (Some [0x00, 0x00]) 2 st = Inr ((0, Some ''No plugins in message''), st)"
proof -
  have e: "encode_plugin_message [] = [0x00, 0x00]" by code_simp
  have d: "decode_plugin_message [0x00, 0x00] 2 = Inr []" by code_simp
  from e d show ?thesis
    by (simp add: message_decode_def plugin_decode_def make_error_msg_def)
qed

text \<open>
  C4, as the claim states it, fails: after \<open>plugin_decode\<close> of the sample Message and
  \<open>plugin_free\<close> of the handle it returned, \<open>plugin_encode\<close> and \<open>plugin_get_name\<close> on that
  handle use the released object (\<open>DanglingHandle\<close>, undefined behaviour in C++) and do not
  return the "Invalid handle" error or a sentinel.
\<close>

theorem use_after_free_counterexample:
  "plugin_decode (Some (encode_plugin_message [sample_plugin])) 27 empty_store
     = Inr ((1, None), after_decode)
   \<and> plugin_free 1 after_decode = Inr after_free
   \<and> plugin_encode 1 after_free = Inl DanglingHandle
   \<and> plugin_encode 1 after_free \<noteq> Inr ((0, None, Some ''Invalid handle''), after_free)
   \<and> plugin_get_name 1 after_free = Inl DanglingHandle"
proof -
  have d: "decode_plugin_message (encode_plugin_message [sample_plugin]) 27 = Inr [sample_plugin]"
    by code_simp
  have 1: "plugin_decode (Some (encode_plugin_message [sample_plugin])) 27 empty_store
     = Inr ((1, None), after_decode)"
    by (simp add: plugin_decode_def d empty_store_def after_decode_def)
  have 2: "plugin_free 1 after_decode = Inr after_free"
    by (simp add: plugin_free_def after_decode_def after_free_def)
  have 3: "plugin_encode 1 after_free = Inl DanglingHandle"
    by (simp add: plugin_encode_def after_free_def)
  have 4: "plugin_get_name 1 after_free = Inl DanglingHandle"
    by (simp add: plugin_get_name_def first_plugin_def bnd_def after_free_def)
  from 1 2 3 4 show ?thesis by simp
qed

text \<open>
  C4, amended. On the null handle, encode returns size 0 with the error "Invalid handle"
  and every plugin accessor returns its absent or zero sentinel. The bindings check for
  null only: on a handle that \<open>plugin_free\<close> or \<open>message_free\<close> has released, encode and
  every accessor use the released object, which C++ leaves undefined.
\<close>

theorem released_handle_not_detected:
  "plugin_encode 0 st = Inr ((0, None, Some ''Invalid handle''), st)
   \<and> message_encode 0 st = Inr ((0, None, Some ''Invalid handle''), st)
   \<and> plugin_get_name 0 st = Inr None
   \<and> plugin_get_manufacturer_id 0 st = Inr None
   \<and> plugin_get_type 0 st = Inr None
   \<and> plugin_get_subtype 0 st = Inr None
   \<and> plugin_get_parameters_count 0 st = Inr 0
   \<and> plugin_get_parameter 0 i st = Inr (0, st)
   \<and> (h \<noteq> 0 \<and> plugin_free h st = Inr st' \<longrightarrow>
        plugin_encode h st' = Inl DanglingHandle
        \<and> plugin_get_name h st' = Inl DanglingHandle
        \<and> plugin_get_manufacturer_id h st' = Inl DanglingHandle
        \<and> plugin_get_type h st' = Inl DanglingHandle
        \<and> plugin_get_subtype h st' = Inl DanglingHandle
        \<and> plugin_get_parameters_count h st' = Inl DanglingHandle
        \<and> plugin_get_parameter h i st' = Inl DanglingHandle)
   \<and> (h \<noteq> 0 \<and> message_free h st = Inr st' \<longrightarrow> message_encode h st' = Inl DanglingHandle)"
proof -
  have null: "plugin_encode 0 st = Inr ((0, None, Some ''Invalid handle''), st)"
    "message_encode 0 st = Inr ((0, None, Some ''Invalid handle''), st)"
    "plugin_get_name 0 st = Inr None"
    "plugin_get_manufacturer_id 0 st = Inr None"
    "plugin_get_type 0 st = Inr None"
    "plugin_get_subtype 0 st = Inr None"
    "plugin_get_parameters_count 0 st = Inr 0"
    "plugin_get_parameter 0 i st = Inr (0, st)"
    by (simp_all add: plugin_encode_def message_encode_def make_error_msg_def
        plugin_get_name_def plugin_get_manufacturer_id_def plugin_get_type_def
        plugin_get_subtype_def plugin_get_parameters_count_def plugin_get_parameter_def)
  have freed: "plugin_encode h st' = Inl DanglingHandle
        \<and> plugin_get_name h st' = Inl DanglingHandle
        \<and> plugin_get_manufacturer_id h st' = Inl DanglingHandle
        \<and> plugin_get_type h st' = Inl DanglingHandle
        \<and> plugin_get_subtype h st' = Inl DanglingHandle
        \<and> plugin_get_parameters_count h st' = Inl DanglingHandle
        \<and> plugin_get_parameter h i st' = Inl DanglingHandle"
    if "h \<noteq> 0" "plugin_free h st = Inr st'"
    using that freed_plugin_gone [OF that] freed_first_plugin [OF that]
    by (simp add: plugin_encode_def plugin_get_name_def plugin_get_manufacturer_id_def
        plugin_get_type_def plugin_get_subtype_def plugin_get_parameters_count_def
        plugin_get_parameter_def bnd_def)
  have mfreed: "message_encode h st' = Inl DanglingHandle"
    if "h \<noteq> 0" "message_free h st = Inr st'"
    using that by (auto simp: message_encode_def message_free_def split: option.splits)
  from null freed mfreed show ?thesis by blast
qed

theorem released_handle_not_detected_witness:
  "(1::nat) \<noteq> 0 \<and> plugin_free 1 after_decode = Inr after_free
   \<and> plugin_encode 1 after_free = Inl DanglingHandle
   \<and> plugin_get_parameters_count 1 after_free = Inl DanglingHandle
   \<and> (3::nat) \<noteq> 0
   \<and> message_free 3 decoded_store
       = Inr (decoded_store\<lparr>message_objs := (message_objs decoded_store)(3 := None)\<rparr>)
   \<and> message_encode 3 (decoded_store\<lparr>message_objs := (message_objs decoded_store)(3 := None)\<rparr>)
       = Inl DanglingHandle"
proof -
  have h: "(1::nat) \<noteq> 0 \<and> plugin_free 1 after_decode = Inr after_free"
    by (simp add: plugin_free_def after_decode_def after_free_def)
  have g: "(3::nat) \<noteq> 0 \<and> message_free 3 decoded_store
       = Inr (decoded_store\<lparr>message_objs := (message_objs decoded_store)(3 := None)\<rparr>)"
    by (simp add: message_free_def decoded_store_def)
  from released_handle_not_detected [where h = 1 and st = after_decode and st' = after_free] h
  have 1: "plugin_encode 1 after_free = Inl DanglingHandle
     \<and> plugin_get_parameters_count 1 after_free = Inl DanglingHandle"
    by simp
  from released_handle_not_detected [where h = 3 and st = decoded_store
      and st' = "decoded_store\<lparr>message_objs := (message_objs decoded_store)(3 := None)\<rparr>"] g
  have 2: "message_encode 3
      (decoded_store\<lparr>message_objs := (message_objs decoded_store)(3 := None)\<rparr>)
       = Inl DanglingHandle"
    by simp
  from h g 1 2 show ?thesis by simp
qed

text \<open>
  C5. For a valid plugin handle and an index at or after the parameter count of its first
  plugin, \<open>plugin_get_parameter\<close> returns the null handle and leaves the store as it is.
  For a valid parameter handle whose IndexedValues is absent, or has at most \<open>j\<close>
  elements, \<open>parameter_get_indexed_value\<close> at \<open>j\<close> returns the null pointer, and
  \<open>parameter_get_indexed_values_count\<close> returns 0 or the element count. Neither accessor
  fails.
\<close>

theorem out_of_range_index_sentinel:
  "(valid_plugin_handle st h \<and> first_plugin h st = Inr p \<and> length (Parameters p) \<le> index
      \<longrightarrow> plugin_get_parameter h index st = Inr (0, st)
         \<and> plugin_get_parameters_count h st = Inr (length (Parameters p)))
   \<and> (valid_parameter_handle st ph \<and> deref_param ph st = Inr q
       \<and> (case IndexedValues q of None \<Rightarrow> True | Some vs \<Rightarrow> length vs \<le> j)
      \<longrightarrow> parameter_get_indexed_value ph j st = Inr None
         \<and> parameter_get_indexed_values_count ph st
             = Inr (case IndexedValues q of None \<Rightarrow> 0 | Some vs \<Rightarrow> length vs))"
  by (auto simp: plugin_get_parameter_def parameter_get_indexed_value_def
      parameter_get_indexed_values_count_def plugin_get_parameters_count_def valid_plugin_handle_def valid_parameter_handle_def
      bnd_def split: option.splits)

theorem out_of_range_index_sentinel_witness:
  "valid_plugin_handle decoded_store 1
   \<and> first_plugin 1 decoded_store = Inr (sample_plugin\<lparr>Parameters := [sample_parameter]\<rparr>)
   \<and> length (Parameters (sample_plugin\<lparr>Parameters := [sample_parameter]\<rparr>)) \<le> 1
   \<and> plugin_get_parameter 1 1 decoded_store = Inr (0, decoded_store)
   \<and> valid_parameter_handle decoded_store 2
   \<and> deref_param 2 decoded_store = Inr sample_parameter
   \<and> (case IndexedValues sample_parameter of None \<Rightarrow> True | Some vs \<Rightarrow> length vs \<le> 3)
   \<and> parameter_get_indexed_value 2 3 decoded_store = Inr None
   \<and> parameter_get_indexed_value 2 2 decoded_store = Inr (Some ''c'')"
proof -
  have h: "valid_plugin_handle decoded_store 1
     \<and> first_plugin 1 decoded_store = Inr (sample_plugin\<lparr>Parameters := [sample_parameter]\<rparr>)
     \<and> length (Parameters (sample_plugin\<lparr>Parameters := [sample_parameter]\<rparr>)) \<le> 1"
    by (simp add: valid_plugin_handle_def decoded_store_def first_plugin_def)
  have g: "valid_parameter_handle decoded_store 2
     \<and> deref_param 2 decoded_store = Inr sample_parameter
     \<and> (case IndexedValues sample_parameter of None \<Rightarrow> True | Some vs \<Rightarrow> length vs \<le> 3)"
    by (simp add: valid_parameter_handle_def decoded_store_def deref_param_def first_plugin_def
        bnd_def sample_parameter_def)
  have c: "parameter_get_indexed_value 2 2 decoded_store = Inr (Some ''c'')"
    by (simp add: parameter_get_indexed_value_def decoded_store_def deref_param_def
        first_plugin_def bnd_def sample_parameter_def)
  from out_of_range_index_sentinel [where st = decoded_store and h = 1
      and p = "sample_plugin\<lparr>Parameters := [sample_parameter]\<rparr>" and index = 1
      and ph = 2 and q = sample_parameter and j = 3] h g c
  show ?thesis by simp
qed

text \<open>
  C10. On a valid handle, \<open>plugin_encode\<close> and \<open>message_encode\<close> succeed and change only
  the member \<open>encoded_data\<close>: the plugins of every object are the same afterwards, every
  accessor returns what it returned before (for \<open>plugin_get_parameter\<close>, the same handle),
  and a second encode returns the same bytes.
\<close>

theorem encode_leaves_handle_unchanged:
  "(valid_plugin_handle st h \<longrightarrow>
      (\<exists>buf st'.
         plugin_encode h st = Inr ((length buf, Some buf, None), st')
         \<and> plugin_encode h st' = Inr ((length buf, Some buf, None), st')
         \<and> (\<forall>h'. map_option plugins (plugin_objs st' h') = map_option plugins (plugin_objs st h'))
         \<and> (\<forall>h' i.
               plugin_get_name h' st' = plugin_get_name h' st
             \<and> plugin_get_manufacturer_id h' st' = plugin_get_manufacturer_id h' st
             \<and> plugin_get_type h' st' = plugin_get_type h' st
             \<and> plugin_get_subtype h' st' = plugin_get_subtype h' st
             \<and> plugin_get_parameters_count h' st' = plugin_get_parameters_count h' st
             \<and> map_sum id fst (plugin_get_parameter h' i st')
                 = map_sum id fst (plugin_get_parameter h' i st))
         \<and> (\<forall>ph i.
               parameter_get_display_name ph st' = parameter_get_display_name ph st
             \<and> parameter_get_default_value ph st' = parameter_get_default_value ph st
             \<and> parameter_get_current_value ph st' = parameter_get_current_value ph st
             \<and> parameter_get_address ph st' = parameter_get_address ph st
             \<and> parameter_get_max_value ph st' = parameter_get_max_value ph st
             \<and> parameter_get_min_value ph st' = parameter_get_min_value ph st
             \<and> parameter_get_unit ph st' = parameter_get_unit ph st
             \<and> parameter_get_identifier ph st' = parameter_get_identifier ph st
             \<and> parameter_get_can_ramp ph st' = parameter_get_can_ramp ph st
             \<and> parameter_get_is_writable ph st' = parameter_get_is_writable ph st
             \<and> parameter_get_raw_flags ph st' = parameter_get_raw_flags ph st
             \<and> parameter_get_indexed_values_count ph st' = parameter_get_indexed_values_count ph st
             \<and> parameter_get_indexed_value ph i st' = parameter_get_indexed_value ph i st
             \<and> parameter_get_indexed_values_source ph st'
                 = parameter_get_indexed_values_source ph st)))
   \<and> (valid_message_handle st h \<longrightarrow>
      (\<exists>buf st'.
         message_encode h st = Inr ((length buf, Some buf, None), st')
         \<and> message_encode h st' = Inr ((length buf, Some buf, None), st')
         \<and> (\<forall>h'. map_option items (message_objs st' h') = map_option items (message_objs st h'))))"
proof (intro conjI impI)
  assume "valid_plugin_handle st h"
  then obtain impl where h: "h \<noteq> 0" and live: "plugin_objs st h = Some impl"
    by (auto simp: valid_plugin_handle_def split: option.splits)
  let ?buf = "encode_plugin_message (plugins impl)"
  let ?st = "plugin_encoded h impl st"
  note frame = plugin_encoded_frame [OF live]
  have "plugin_encode h st = Inr ((length ?buf, Some ?buf, None), ?st)"
    using h live by (rule plugin_encode_live)
  moreover have "plugin_encode h ?st = Inr ((length ?buf, Some ?buf, None), ?st)"
    using h live by (rule plugin_encoded_again)
  moreover have "\<forall>h'. map_option plugins (plugin_objs ?st h') = map_option plugins (plugin_objs st h')"
    by (simp add: frame)
  moreover have "\<forall>h' i.
               plugin_get_name h' ?st = plugin_get_name h' st
             \<and> plugin_get_manufacturer_id h' ?st = plugin_get_manufacturer_id h' st
             \<and> plugin_get_type h' ?st = plugin_get_type h' st
             \<and> plugin_get_subtype h' ?st = plugin_get_subtype h' st
             \<and> plugin_get_parameters_count h' ?st = plugin_get_parameters_count h' st
             \<and> map_sum id fst (plugin_get_parameter h' i ?st)
                 = map_sum id fst (plugin_get_parameter h' i st)"
    by (simp add: plugin_get_name_def plugin_get_manufacturer_id_def plugin_get_type_def
        plugin_get_subtype_def plugin_get_parameters_count_def plugin_get_parameter_def frame
        bnd_def Let_def split: sum.splits)
  moreover have "\<forall>ph i.
               parameter_get_display_name ph ?st = parameter_get_display_name ph st
             \<and> parameter_get_default_value ph ?st = parameter_get_default_value ph st
             \<and> parameter_get_current_value ph ?st = parameter_get_current_value ph st
             \<and> parameter_get_address ph ?st = parameter_get_address ph st
             \<and> parameter_get_max_value ph ?st = parameter_get_max_value ph st
             \<and> parameter_get_min_value ph ?st = parameter_get_min_value ph st
             \<and> parameter_get_unit ph ?st = parameter_get_unit ph st
             \<and> parameter_get_identifier ph ?st = parameter_get_identifier ph st
             \<and> parameter_get_can_ramp ph ?st = parameter_get_can_ramp ph st
             \<and> parameter_get_is_writable ph ?st = parameter_get_is_writable ph st
             \<and> parameter_get_raw_flags ph ?st = parameter_get_raw_flags ph st
             \<and> parameter_get_indexed_values_count ph ?st = parameter_get_indexed_values_count ph st
             \<and> parameter_get_indexed_value ph i ?st = parameter_get_indexed_value ph i st
             \<and> parameter_get_indexed_values_source ph ?st
                 = parameter_get_indexed_values_source ph st"
    by (simp add: parameter_get_display_name_def parameter_get_default_value_def
        parameter_get_current_value_def parameter_get_address_def parameter_get_max_value_def
        parameter_get_min_value_def parameter_get_unit_def parameter_get_identifier_def
        parameter_get_can_ramp_def parameter_get_is_writable_def parameter_get_raw_flags_def
        parameter_get_indexed_values_count_def parameter_get_indexed_value_def
        parameter_get_indexed_values_source_def frame)
  ultimately show "\<exists>buf st'.
         plugin_encode h st = Inr ((length buf, Some buf, None), st')
         \<and> plugin_encode h st' = Inr ((length buf, Some buf, None), st')
         \<and> (\<forall>h'. map_option plugins (plugin_objs st' h') = map_option plugins (plugin_objs st h'))
         \<and> (\<forall>h' i.
               plugin_get_name h' st' = plugin_get_name h' st
             \<and> plugin_get_manufacturer_id h' st' = plugin_get_manufacturer_id h' st
             \<and> plugin_get_type h' st' = plugin_get_type h' st
             \<and> plugin_get_subtype h' st' = plugin_get_subtype h' st
             \<and> plugin_get_parameters_count h' st' = plugin_get_parameters_count h' st
             \<and> map_sum id fst (plugin_get_parameter h' i st')
                 = map_sum id fst (plugin_get_parameter h' i st))
         \<and> (\<forall>ph i.
               parameter_get_display_name ph st' = parameter_get_display_name ph st
             \<and> parameter_get_default_value ph st' = parameter_get_default_value ph st
             \<and> parameter_get_current_value ph st' = parameter_get_current_value ph st
             \<and> parameter_get_address ph st' = parameter_get_address ph st
             \<and> parameter_get_max_value ph st' = parameter_get_max_value ph st
             \<and> parameter_get_min_value ph st' = parameter_get_min_value ph st
             \<and> parameter_get_unit ph st' = parameter_get_unit ph st
             \<and> parameter_get_identifier ph st' = parameter_get_identifier ph st
             \<and> parameter_get_can_ramp ph st' = parameter_get_can_ramp ph st
             \<and> parameter_get_is_writable ph st' = parameter_get_is_writable ph st
             \<and> parameter_get_raw_flags ph st' = parameter_get_raw_flags ph st
             \<and> parameter_get_indexed_values_count ph st' = parameter_get_indexed_values_count ph st
             \<and> parameter_get_indexed_value ph i st' = parameter_get_indexed_value ph i st
             \<and> parameter_get_indexed_values_source ph st'
                 = parameter_get_indexed_values_source ph st)"
    by blast
next
  assume "valid_message_handle st h"
  then obtain impl where h: "h \<noteq> 0" and live: "message_objs st h = Some impl"
    by (auto simp: valid_message_handle_def split: option.splits)
  from message_encode_live [OF h live]
  show "\<exists>buf st'.
         message_encode h st = Inr ((length buf, Some buf, None), st')
         \<and> message_encode h st' = Inr ((length buf, Some buf, None), st')
         \<and> (\<forall>h'. map_option items (message_objs st' h') = map_option items (message_objs st h'))"
    by blast
qed

theorem encode_leaves_handle_unchanged_witness:
  "valid_plugin_handle decoded_store 1 \<and> valid_message_handle decoded_store 3
   \<and> (\<exists>buf st'. plugin_encode 1 decoded_store = Inr ((length buf, Some buf, None), st')
         \<and> plugin_encode 1 st' = Inr ((length buf, Some buf, None), st')
         \<and> plugin_get_name 1 st' = plugin_get_name 1 decoded_store
         \<and> parameter_get_raw_flags 2 st' = parameter_get_raw_flags 2 decoded_store)
   \<and> (\<exists>buf st'. message_encode 3 decoded_store = Inr ((length buf, Some buf, None), st')
         \<and> message_encode 3 st' = Inr ((length buf, Some buf, None), st'))"
proof -
  have p: "valid_plugin_handle decoded_store 1"
    by (simp add: valid_plugin_handle_def decoded_store_def)
  have m: "valid_message_handle decoded_store 3"
    by (simp add: valid_message_handle_def decoded_store_def)
  from encode_leaves_handle_unchanged [of decoded_store 1] p
  have 1: "\<exists>buf st'. plugin_encode 1 decoded_store = Inr ((length buf, Some buf, None), st')
         \<and> plugin_encode 1 st' = Inr ((length buf, Some buf, None), st')
         \<and> plugin_get_name 1 st' = plugin_get_name 1 decoded_store
         \<and> parameter_get_raw_flags 2 st' = parameter_get_raw_flags 2 decoded_store"
    by blast
  from encode_leaves_handle_unchanged [of decoded_store 3] m
  have 2: "\<exists>buf st'. message_encode 3 decoded_store = Inr ((length buf, Some buf, None), st')
         \<and> message_encode 3 st' = Inr ((length buf, Some buf, None), st')"
    by blast
  from p m 1 2 show ?thesis by simp
qed

end
